theory Spec2Isabelle
  imports Complex_Main "HOL-Library.Word"
begin

unbundle bit_operations_syntax

section \<open>Data model of json\_parser.h\<close>

text \<open>
  The enums of the header become datatypes, the two structs become records. Input bytes are
  \<^typ>\<open>char\<close> (an 8-bit byte); offsets and counts (C \<open>size_t\<close> values that index real
  memory) are naturals. The two caller-set limits \<open>max_depth\<close> and \<open>max_string\<close> are
  64-bit words, because the code compares against \<open>max_string - k\<close>, which wraps around
  in \<open>size_t\<close> arithmetic; \<open>depth\<close> is a C \<open>int\<close>, kept as an integer, and converted
  to \<open>size_t\<close> where the code compares it with \<open>max_depth\<close>.
\<close>

datatype json_error_t =
    JSON_ERROR_NONE
  | JSON_ERROR_INVALID_TOKEN
  | JSON_ERROR_UNEXPECTED_CHAR
  | JSON_ERROR_MAX_TOKENS
  | JSON_ERROR_STRING_TOO_LONG
  | JSON_ERROR_INVALID_ESCAPE
  | JSON_ERROR_INVALID_UNICODE
  | JSON_ERROR_NESTING_DEPTH
  | JSON_ERROR_INVALID_NUMBER
  | JSON_ERROR_TRAILING_CHARS
  | JSON_ERROR_ALLOCATION_FAILED

datatype json_token_type_t =
    JSON_TOKEN_INVALID
  | JSON_TOKEN_OBJECT
  | JSON_TOKEN_ARRAY
  | JSON_TOKEN_STRING
  | JSON_TOKEN_NUMBER
  | JSON_TOKEN_TRUE
  | JSON_TOKEN_FALSE
  | JSON_TOKEN_NULL

text \<open>
  The payload union of a token. \<open>Value_Zero\<close> is the state after \<open>memset(token, 0, ...)\<close>;
  \<open>Value_String\<close> holds the bytes written to the decoded buffer before its terminating NUL;
  \<open>Value_Number\<close> holds the \<open>double\<close> that \<open>strtod\<close> returned.

  A \<open>double\<close> is an IEEE 754 binary64 value: \<open>Finite r\<close> for the rational \<open>r\<close> that it
  represents (\<open>Finite 0\<close> is \<open>+0\<close>), \<open>Minus_Zero\<close>, or an infinity. There is no NaN here:
  \<open>strtod\<close> is the only source of numbers, and it is called on text that starts with a digit
  or a sign.
\<close>

datatype c_double = Finite rat | Minus_Zero | Plus_Infinity | Minus_Infinity

datatype json_value = Value_Zero | Value_String string | Value_Number c_double

record json_token_t =
  tok_type :: json_token_type_t
  tok_value :: json_value
  tok_start :: nat
  tok_end :: nat

text \<open>
  What \<open>malloc\<close> and \<open>realloc\<close> answer is not decided by the parser. The environment is a
  function from the ordinal of the request to its outcome; \<open>heap_calls\<close> counts the requests
  made so far. For \<open>malloc\<close> only failure and success are distinguished; for \<open>realloc\<close>
  success either keeps the block where it is or moves it to a new address.
\<close>

datatype alloc_outcome = Alloc_Fails | Alloc_In_Place | Alloc_Moves

text \<open>
  \<open>tokens\<close> holds the \<open>token_count\<close> initialised slots of the token array, and
  \<open>tokens_addr\<close> identifies the block that currently holds them: it changes when
  \<open>realloc\<close> moves the array. A \<open>json_token_t *\<close> is a block address with an index.
  \<open>error_writes\<close> is a history variable: the values assigned to \<open>error\<close>, oldest first,
  by \<open>json_set_error\<close> and by the statement \<open>parser->error = JSON_ERROR_NONE\<close> at the
  entry of \<open>json_parser_parse\<close>, the only two places that assign it after initialisation.
  It is not a field of the C struct and no function reads it.
\<close>

type_synonym token_ptr = "nat \<times> nat"

record json_parser_t =
  json :: string
  length_p :: nat
  pos :: nat
  tokens :: "json_token_t list"
  tokens_addr :: nat
  token_cap :: nat
  max_depth :: "64 word"
  max_string :: "64 word"
  error :: json_error_t
  depth :: int
  heap :: "nat \<Rightarrow> alloc_outcome"
  heap_calls :: nat
  error_writes :: "json_error_t list"

definition token_count :: "json_parser_t \<Rightarrow> nat" where
  "token_count p = length (tokens p)"

definition JSON_DEFAULT_MAX_TOKENS :: nat where
  "JSON_DEFAULT_MAX_TOKENS = 128"

definition JSON_DEFAULT_MAX_DEPTH :: "64 word" where
  "JSON_DEFAULT_MAX_DEPTH = 32"

definition JSON_DEFAULT_MAX_STRING :: "64 word" where
  "JSON_DEFAULT_MAX_STRING = 256"

section \<open>Reading the input\<close>

text \<open>
  \<open>parser->json[i]\<close>. The list \<open>json\<close> is the caller's buffer. Every caller in the
  repository passes a C string, so the byte after the buffer is its NUL terminator; bytes
  past the end of the list read as NUL. The code reads index \<open>pos\<close> in several places
  without comparing \<open>pos\<close> with \<open>length\<close> first, so this matters.
\<close>

definition json_at :: "json_parser_t \<Rightarrow> nat \<Rightarrow> char" where
  "json_at p i = (if i < length (json p) then json p ! i else CHR 0x00)"

definition byte :: "char \<Rightarrow> nat" where
  "byte c = of_char c"

text \<open>\<open>isspace\<close> and \<open>isdigit\<close> of \<open>ctype.h\<close> in the C locale.\<close>

definition isspace :: "char \<Rightarrow> bool" where
  "isspace c = (byte c = 32 \<or> (9 \<le> byte c \<and> byte c \<le> 13))"

definition isdigit :: "char \<Rightarrow> bool" where
  "isdigit c = (48 \<le> byte c \<and> byte c \<le> 57)"

section \<open>Error latch, initialisation, token store\<close>

definition json_set_error :: "json_parser_t \<Rightarrow> json_error_t \<Rightarrow> json_parser_t" where
  "json_set_error p e =
     (if error p = JSON_ERROR_NONE
      then p\<lparr>error := e, error_writes := error_writes p @ [e]\<rparr>
      else p)"

text \<open>
  \<open>json_parser_init\<close> with its own \<open>malloc\<close> succeeding (block address 1). When that
  \<open>malloc\<close> fails the C function stores \<open>JSON_ERROR_ALLOCATION_FAILED\<close> and leaves
  \<open>tokens\<close> NULL; parsing with such a parser dereferences NULL at the first token and is
  outside this development.
\<close>

definition json_parser_init :: "(nat \<Rightarrow> alloc_outcome) \<Rightarrow> string \<Rightarrow> nat \<Rightarrow> json_parser_t" where
  "json_parser_init env js len =
     \<lparr>json = js, length_p = len, pos = 0, tokens = [], tokens_addr = 1,
      token_cap = JSON_DEFAULT_MAX_TOKENS, max_depth = JSON_DEFAULT_MAX_DEPTH,
      max_string = JSON_DEFAULT_MAX_STRING, error = JSON_ERROR_NONE, depth = 0,
      heap = env, heap_calls = 0, error_writes = []\<rparr>"

function json_skip_whitespace :: "json_parser_t \<Rightarrow> json_parser_t" where
  "json_skip_whitespace p =
     (if pos p < length_p p \<and> isspace (json_at p (pos p))
      then json_skip_whitespace (p\<lparr>pos := pos p + 1\<rparr>)
      else p)"
  by pat_completeness auto
termination
  by (relation "measure (\<lambda>p. length_p p - pos p)") auto

declare json_skip_whitespace.simps [simp del]

text \<open>
  A store through a \<open>json_token_t *\<close>. When the pointer still points into the live token
  array the slot is updated. When \<open>realloc\<close> has moved the array since the pointer was
  taken, the C store goes to the released block (undefined behaviour); the live array,
  which is all that \<open>json_get_tokens\<close> hands out, is then left as it is.
\<close>

definition token_store ::
  "token_ptr \<Rightarrow> (json_token_t \<Rightarrow> json_token_t) \<Rightarrow> json_parser_t \<Rightarrow> json_parser_t" where
  "token_store ptr f p =
     (if fst ptr = tokens_addr p \<and> snd ptr < length (tokens p)
      then p\<lparr>tokens := (tokens p)[snd ptr := f (tokens p ! snd ptr)]\<rparr>
      else p)"

definition last_token_ptr :: "json_parser_t \<Rightarrow> token_ptr" where
  "last_token_ptr p = (tokens_addr p, token_count p - 1)"

definition new_token :: "json_token_type_t \<Rightarrow> nat \<Rightarrow> json_token_t" where
  "new_token ty off = \<lparr>tok_type = ty, tok_value = Value_Zero, tok_start = off, tok_end = off\<rparr>"

definition json_add_token :: "json_parser_t \<Rightarrow> json_token_type_t \<Rightarrow> int \<times> json_parser_t" where
  "json_add_token p ty =
     (if token_count p \<ge> token_cap p
      then
        (let answer = heap p (heap_calls p);
             p = p\<lparr>heap_calls := heap_calls p + 1\<rparr>
         in if answer = Alloc_Fails
            then (-1, json_set_error p JSON_ERROR_ALLOCATION_FAILED)
            else
              (let p = p\<lparr>tokens_addr :=
                          (if answer = Alloc_Moves then tokens_addr p + 1 else tokens_addr p),
                        token_cap := token_cap p * 2\<rparr>
               in (0, p\<lparr>tokens := tokens p @ [new_token ty (pos p)]\<rparr>)))
      else (0, p\<lparr>tokens := tokens p @ [new_token ty (pos p)]\<rparr>))"

section \<open>String decoder\<close>

text \<open>
  The two \<open>for(int i = 0; i < 4; i++)\<close> loops of \<open>json_parse_unicode_escape\<close>, which read
  four hexadecimal digits into an \<open>unsigned int\<close>. The first argument is the number of
  iterations left. A byte that is no hexadecimal digit ends the function with \<open>-1\<close>, after
  \<open>pos\<close> has moved past it.
\<close>

fun hex4_loop :: "nat \<Rightarrow> json_parser_t \<Rightarrow> 32 word \<Rightarrow> int \<times> json_parser_t \<times> 32 word" where
  "hex4_loop 0 p codepoint = (0, p, codepoint)"
| "hex4_loop (Suc i) p codepoint =
     (let c = json_at p (pos p);
          p = p\<lparr>pos := pos p + 1\<rparr>;
          codepoint = push_bit 4 codepoint
      in if byte CHR ''0'' \<le> byte c \<and> byte c \<le> byte CHR ''9''
         then hex4_loop i p (codepoint + of_nat (byte c - byte CHR ''0''))
         else if byte CHR ''a'' \<le> byte c \<and> byte c \<le> byte CHR ''f''
         then hex4_loop i p (codepoint + of_nat (byte c - byte CHR ''a'' + 10))
         else if byte CHR ''A'' \<le> byte c \<and> byte c \<le> byte CHR ''F''
         then hex4_loop i p (codepoint + of_nat (byte c - byte CHR ''A'' + 10))
         else (-1, p, codepoint))"

text \<open>
  The first half of \<open>json_parse_unicode_escape\<close> (up to the comment
  \<open>UTF-8 encoding\<close>): the code unit after \<open>\u\<close>, and for a high surrogate the
  \<open>\u\<close> escape of the low surrogate that must follow, combined into one code point.
\<close>

definition unicode_escape_codepoint :: "json_parser_t \<Rightarrow> int \<times> json_parser_t \<times> 32 word" where
  "unicode_escape_codepoint p =
     (if pos p + 4 > length_p p then (-1, p, 0)
      else
        (case hex4_loop 4 p 0 of (rc, p, codepoint) \<Rightarrow>
           if rc \<noteq> 0 then (-1, p, codepoint)
           else if codepoint \<ge> 0xD800 \<and> codepoint \<le> 0xDBFF
           then
             (if pos p + 6 > length_p p \<or> json_at p (pos p) \<noteq> CHR 0x5C
                 \<or> json_at p (pos p + 1) \<noteq> CHR ''u''
              then (-1, p, codepoint)
              else
                (case hex4_loop 4 (p\<lparr>pos := pos p + 2\<rparr>) 0 of (rc, p, low_surrogate) \<Rightarrow>
                   if rc \<noteq> 0 then (-1, p, codepoint)
                   else if low_surrogate < 0xDC00 \<or> low_surrogate > 0xDFFF
                   then (-1, p, codepoint)
                   else (0, p, 0x10000 + push_bit 10 (codepoint - 0xD800)
                                 + (low_surrogate - 0xDC00))))
           else if codepoint \<ge> 0xDC00 \<and> codepoint \<le> 0xDFFF then (-1, p, codepoint)
           else (0, p, codepoint)))"

text \<open>An \<open>unsigned int\<close> stored into a \<open>char\<close> of the buffer: the low eight bits.\<close>

definition to_char :: "32 word \<Rightarrow> char" where
  "to_char w = char_of (unat w)"

text \<open>
  The second half of \<open>json_parse_unicode_escape\<close>: the UTF-8 bytes of the code point
  are appended at \<open>buf[*idx]\<close>. The buffer is the list of bytes written so far, so
  \<open>*idx\<close> is its length. The room checks subtract from \<open>max_string\<close> in \<open>size_t\<close>.
\<close>

definition utf8_append :: "json_parser_t \<Rightarrow> string \<Rightarrow> 32 word \<Rightarrow> int \<times> string" where
  "utf8_append p buf codepoint =
     (let idx = (of_nat (length buf) :: 64 word) in
      if codepoint \<le> 0x7F
      then (if idx \<ge> max_string p - 1 then (-1, buf)
            else (0, buf @ [to_char codepoint]))
      else if codepoint \<le> 0x7FF
      then (if idx \<ge> max_string p - 2 then (-1, buf)
            else (0, buf @ [to_char (0xC0 OR drop_bit 6 codepoint),
                            to_char (0x80 OR (codepoint AND 0x3F))]))
      else if codepoint \<le> 0xFFFF
      then (if idx \<ge> max_string p - 3 then (-1, buf)
            else (0, buf @ [to_char (0xE0 OR drop_bit 12 codepoint),
                            to_char (0x80 OR (drop_bit 6 codepoint AND 0x3F)),
                            to_char (0x80 OR (codepoint AND 0x3F))]))
      else (if idx \<ge> max_string p - 4 then (-1, buf)
            else (0, buf @ [to_char (0xF0 OR drop_bit 18 codepoint),
                            to_char (0x80 OR (drop_bit 12 codepoint AND 0x3F)),
                            to_char (0x80 OR (drop_bit 6 codepoint AND 0x3F)),
                            to_char (0x80 OR (codepoint AND 0x3F))])))"

definition json_parse_unicode_escape ::
  "json_parser_t \<Rightarrow> string \<Rightarrow> int \<times> json_parser_t \<times> string" where
  "json_parse_unicode_escape p buf =
     (case unicode_escape_codepoint p of (rc, p, codepoint) \<Rightarrow>
        if rc \<noteq> 0 then (-1, p, buf)
        else (case utf8_append p buf codepoint of (rc, buf) \<Rightarrow> (rc, p, buf)))"

text \<open>The \<open>switch\<close> of \<open>json_parse_string\<close> over the byte after a backslash, without its
  \<open>'u'\<close> case; \<open>None\<close> is the \<open>default\<close> branch.\<close>

definition escape_char :: "char \<Rightarrow> char option" where
  "escape_char c =
     (if c = CHR 0x22 then Some (CHR 0x22)
      else if c = CHR 0x5C then Some (CHR 0x5C)
      else if c = CHR ''/'' then Some (CHR ''/'')
      else if c = CHR ''b'' then Some (CHR 0x08)
      else if c = CHR ''f'' then Some (CHR 0x0C)
      else if c = CHR ''n'' then Some (CHR 0x0A)
      else if c = CHR ''r'' then Some (CHR 0x0D)
      else if c = CHR ''t'' then Some (CHR 0x09)
      else None)"

lemma hex4_loop_frame:
  "hex4_loop i p cp = (rc, p', cp') \<Longrightarrow> \<exists>k\<le>i. p' = p\<lparr>pos := pos p + k\<rparr>"
proof (induction i arbitrary: p cp)
  case 0
  then show ?case by simp
next
  case (Suc i)
  show ?case
  proof (cases "p' = p\<lparr>pos := pos p + 1\<rparr>")
    case True
    then show ?thesis by (intro exI [of _ 1]) simp
  next
    case False
    with Suc.prems obtain cp1 where "hex4_loop i (p\<lparr>pos := pos p + 1\<rparr>) cp1 = (rc, p', cp')"
      by (auto simp: Let_def split: if_splits)
    from Suc.IH [OF this] obtain k where "k \<le> i" and "p' = p\<lparr>pos := pos p + 1 + k\<rparr>"
      by auto
    then show ?thesis by (intro exI [of _ "1 + k"]) simp
  qed
qed

lemma unicode_escape_codepoint_frame:
  assumes "unicode_escape_codepoint p = (rc, p', cp)"
  shows "\<exists>k\<le>10. p' = p\<lparr>pos := pos p + k\<rparr>"
proof (cases "pos p + 4 > length_p p")
  case True
  with assms have "p' = p" by (simp add: unicode_escape_codepoint_def)
  then show ?thesis by (intro exI [of _ 0]) simp
next
  case False
  obtain r1 p1 c1 where h1: "hex4_loop 4 p 0 = (r1, p1, c1)"
    by (cases "hex4_loop 4 p 0") auto
  obtain r2 p2 c2 where h2: "hex4_loop 4 (p1\<lparr>pos := pos p1 + 2\<rparr>) 0 = (r2, p2, c2)"
    by (cases "hex4_loop 4 (p1\<lparr>pos := pos p1 + 2\<rparr>) 0") auto
  from hex4_loop_frame [OF h1] obtain k1 where k1: "k1 \<le> 4" "p1 = p\<lparr>pos := pos p + k1\<rparr>"
    by auto
  from hex4_loop_frame [OF h2] k1 obtain k2 where
    k2: "k2 \<le> 4" "p2 = p\<lparr>pos := pos p + k1 + 2 + k2\<rparr>"
    by auto
  from assms False h1 h2 have "p' = p1 \<or> p' = p2"
    by (auto simp: unicode_escape_codepoint_def split: if_splits)
  then show ?thesis
  proof
    assume "p' = p1"
    with k1 show ?thesis by (intro exI [of _ k1]) simp
  next
    assume "p' = p2"
    with k1 k2 show ?thesis by (intro exI [of _ "k1 + 2 + k2"]) (simp add: add.assoc)
  qed
qed

lemma json_parse_unicode_escape_frame:
  "json_parse_unicode_escape p buf = (rc, p', buf') \<Longrightarrow> \<exists>k\<le>10. p' = p\<lparr>pos := pos p + k\<rparr>"
  using unicode_escape_codepoint_frame [of p]
  by (auto simp: json_parse_unicode_escape_def split: prod.splits if_splits)

text \<open>
  A loop body is given as a definition of its own, apart from the recursion that repeats it.
  It either returns from the C function (\<open>Return rc p\<close>, with the function's result
  \<open>rc\<close>) or reaches its end and lets the loop go on (\<open>Go_On\<close>).
\<close>

datatype 'a flow = Return int json_parser_t | Go_On 'a

text \<open>
  The end of the loop body of \<open>json_parse_string\<close>, reached by an ordinary byte and by
  the \<open>break\<close> of a one-letter escape: the room check and \<open>buffer[idx++] = c\<close>.
\<close>

definition string_put :: "json_parser_t \<Rightarrow> string \<Rightarrow> char \<Rightarrow> (json_parser_t \<times> string) flow" where
  "string_put p buffer c =
     (if (of_nat (length buffer) :: 64 word) \<ge> max_string p - 1
      then Return (- 1) (json_set_error p JSON_ERROR_STRING_TOO_LONG)
      else Go_On (p, buffer @ [c]))"

text \<open>
  One iteration of \<open>while(parser->pos < parser->length)\<close> in \<open>json_parse_string\<close>.
  \<open>token\<close> is the pointer taken before the loop, \<open>buffer\<close> the bytes written so far. The
  \<open>break\<close> after a backslash at the end of the input leads to the two statements after the
  loop, which are written out here.
\<close>

definition string_step ::
  "token_ptr \<Rightarrow> json_parser_t \<Rightarrow> string \<Rightarrow> (json_parser_t \<times> string) flow" where
  "string_step token p buffer =
     (let c = json_at p (pos p);
          p = p\<lparr>pos := pos p + 1\<rparr>
      in if c = CHR 0x22
         then Return 0 (token_store token
                          (\<lambda>t. t\<lparr>tok_value := Value_String buffer, tok_end := pos p - 1\<rparr>) p)
         else if c = CHR 0x5C
         then
           (if pos p \<ge> length_p p
            then Return (- 1) (json_set_error p JSON_ERROR_UNEXPECTED_CHAR)
            else
              (let c = json_at p (pos p);
                   p = p\<lparr>pos := pos p + 1\<rparr>
               in if c = CHR ''u''
                  then
                    (case json_parse_unicode_escape p buffer of (rc, p, buffer) \<Rightarrow>
                       if rc \<noteq> 0
                       then Return (- 1) (json_set_error p JSON_ERROR_INVALID_UNICODE)
                       else Go_On (p, buffer))
                  else
                    (case escape_char c of
                       None \<Rightarrow> Return (- 1) (json_set_error p JSON_ERROR_INVALID_ESCAPE)
                     | Some c \<Rightarrow> string_put p buffer c)))
         else string_put p buffer c)"

lemma string_step_advances:
  assumes "string_step token p buffer = Go_On (p', buffer')"
  shows "pos p < pos p' \<and> length_p p' = length_p p"
proof -
  have put: "pos p < pos p' \<and> length_p p' = length_p p"
    if "string_put q buffer c = Go_On (p', buffer')" "pos p < pos q" "length_p q = length_p p"
    for q c
    using that by (auto simp: string_put_def split: if_splits)
  have uni: "pos q \<le> pos p' \<and> length_p p' = length_p q"
    if "json_parse_unicode_escape q buffer = (0, p', buffer')" for q
    using json_parse_unicode_escape_frame [OF that] by auto
  from assms show ?thesis
    by (auto simp: string_step_def Let_def split: if_splits prod.splits option.splits
        dest!: put uni)
qed

text \<open>
  The loop of \<open>json_parse_string\<close> with the two statements after it, which are reached when
  the input ends without a closing quote.
\<close>

function string_loop :: "token_ptr \<Rightarrow> json_parser_t \<Rightarrow> string \<Rightarrow> int \<times> json_parser_t" where
  "string_loop token p buffer =
     (if pos p < length_p p
      then
        (case string_step token p buffer of
           Return rc p \<Rightarrow> (rc, p)
         | Go_On (p, buffer) \<Rightarrow> string_loop token p buffer)
      else (- 1, json_set_error p JSON_ERROR_UNEXPECTED_CHAR))"
  by pat_completeness auto
termination
proof (relation "measure (\<lambda>(token, p, buffer). length_p p - pos p)", goal_cases)
  case 1
  show ?case by simp
next
  case (2 token p buffer x p' buffer')
  then have "string_step token p buffer = Go_On (p', buffer')" by simp
  from string_step_advances [OF this] 2(1) show ?case by auto
qed

declare string_loop.simps [simp del]

definition json_parse_string :: "json_parser_t \<Rightarrow> int \<times> json_parser_t" where
  "json_parse_string p =
     (case json_add_token p JSON_TOKEN_STRING of (rc, p) \<Rightarrow>
        if rc \<noteq> 0 then (-1, p)
        else
          (let token = last_token_ptr p;
               p = token_store token (\<lambda>t. t\<lparr>tok_start := pos p + 1\<rparr>) p;
               answer = heap p (heap_calls p);
               p = p\<lparr>heap_calls := heap_calls p + 1\<rparr>
           in if answer = Alloc_Fails
              then (-1, json_set_error p JSON_ERROR_ALLOCATION_FAILED)
              else string_loop token (p\<lparr>pos := pos p + 1\<rparr>) []))"

section \<open>Number validator\<close>

text \<open>
  \<open>while(isdigit(*p)) p++\<close>, with the pointer \<open>p\<close> as an index into the buffer. The scan
  of \<open>json_parse_number\<close> is not bounded by \<open>length\<close>: it stops at the first byte that
  does not fit, at the latest at the NUL after the buffer.
\<close>

function skip_digits :: "json_parser_t \<Rightarrow> nat \<Rightarrow> nat" where
  "skip_digits p i = (if isdigit (json_at p i) then skip_digits p (i + 1) else i)"
  by pat_completeness auto
termination
proof (relation "measure (\<lambda>(p, i). length (json p) - i)", goal_cases)
  case 1
  show ?case by simp
next
  case (2 p i)
  then have "i < length (json p)"
    by (auto simp: isdigit_def json_at_def byte_def split: if_splits)
  then show ?case by simp
qed

declare skip_digits.simps [simp del]

text \<open>
  The three validation steps of \<open>json_parse_number\<close>, each from the index where the
  previous one stopped; \<open>None\<close> is a \<open>return -1\<close> after
  \<open>json_set_error(parser, JSON_ERROR_INVALID_NUMBER)\<close>. (The flags \<open>has_sign\<close>,
  \<open>has_integer\<close>, \<open>has_fraction\<close> and \<open>has_exponent\<close> are written and never read.)
\<close>

definition number_integer_part :: "json_parser_t \<Rightarrow> nat \<Rightarrow> nat option" where
  "number_integer_part p i =
     (if json_at p i = CHR ''0'' then Some (i + 1)
      else if isdigit (json_at p i) then Some (skip_digits p (i + 1))
      else None)"

definition number_fraction_part :: "json_parser_t \<Rightarrow> nat \<Rightarrow> nat option" where
  "number_fraction_part p i =
     (if json_at p i = CHR ''.''
      then (if \<not> isdigit (json_at p (i + 1)) then None
            else Some (skip_digits p (i + 2)))
      else Some i)"

definition number_exponent_part :: "json_parser_t \<Rightarrow> nat \<Rightarrow> nat option" where
  "number_exponent_part p i =
     (if json_at p i = CHR ''e'' \<or> json_at p i = CHR ''E''
      then
        (let i = i + 1;
             i = (if json_at p i = CHR ''+'' \<or> json_at p i = CHR ''-'' then i + 1 else i)
         in if \<not> isdigit (json_at p i) then None
            else Some (skip_digits p (i + 1)))
      else Some i)"

subsection \<open>The C library's \<open>strtod\<close>\<close>

text \<open>
  \<open>strtod\<close> is not code of the repository; it is modelled from ISO C (7.22.1.3) for the
  C locale: white space, an optional sign, then the longest prefix that is a hexadecimal
  floating constant (\<open>0x\<close>, hexadecimal digits with an optional point, an optional binary
  exponent) or a decimal one (digits with an optional point, at least one digit, an optional
  decimal exponent). The result is the value of that text rounded to binary64 and the index
  where the conversion stopped; when nothing converts, the result is \<open>+0\<close> and the index is
  where it started. The rounding is the correct one of IEC 60559 in the default rounding
  direction (to nearest, ties to even), as in glibc: gradual underflow below \<open>2 ^ - 1022\<close>,
  an infinity (\<open>HUGE_VAL\<close>) from \<open>2 ^ 1024\<close> on. The \<open>INF\<close> and \<open>NAN\<close> forms begin with a
  letter; \<open>json_parse_number\<close> calls \<open>strtod\<close> only after it has seen a digit in that
  place, so they are left out.
\<close>

text \<open>The number of binary digits of \<open>n\<close>: \<open>2 ^ (bit_length n - 1) \<le> n < 2 ^ bit_length n\<close>.\<close>

function bit_length :: "int \<Rightarrow> int" where
  "bit_length n = (if n \<le> 0 then 0 else 1 + bit_length (n div 2))"
  by pat_completeness auto
termination
  by (relation "measure nat") auto

declare bit_length.simps [simp del]

text \<open>\<open>\<lfloor>log\<^sub>2 (n / d)\<rfloor>\<close> for positive \<open>n\<close> and \<open>d\<close>.\<close>

definition binary_exponent :: "int \<Rightarrow> int \<Rightarrow> int" where
  "binary_exponent n d =
     (let e = bit_length n - bit_length d
      in if d * 2 ^ nat e \<le> n * 2 ^ nat (- e) then e else e - 1)"

text \<open>
  The binary64 nearest to \<open>v \<ge> 0\<close>, with the sign \<open>neg\<close>: the significand has 53 bits, so
  the last place is \<open>2 ^ q\<close> with \<open>q = e - 52\<close> for \<open>2 ^ e \<le> v < 2 ^ (e + 1)\<close>, and never
  less than \<open>2 ^ - 1074\<close>; \<open>v\<close> is divided by it, the quotient \<open>m\<close> rounded to the nearest
  integer and, halfway, to the even one. The result is \<open>m * 2 ^ q\<close>.
\<close>

definition round_binary64 :: "bool \<Rightarrow> rat \<Rightarrow> c_double" where
  "round_binary64 neg v =
     (case quotient_of v of (n, d) \<Rightarrow>
        if n \<le> 0 then (if neg then Minus_Zero else Finite 0)
        else
          (let q = max (binary_exponent n d - 52) (- 1074);
               num = n * 2 ^ nat (- q);
               den = d * 2 ^ nat q;
               m = num div den;
               r = num mod den;
               m = (if den < 2 * r \<or> (2 * r = den \<and> odd m) then m + 1 else m);
               x = (if 0 \<le> q then of_int (m * 2 ^ nat q) else of_int m / of_int (2 ^ nat (- q)))
           in if 0 \<le> q \<and> 2 ^ 1024 \<le> m * 2 ^ nat q
              then (if neg then Minus_Infinity else Plus_Infinity)
              else if m = 0 then (if neg then Minus_Zero else Finite 0)
              else Finite (if neg then - x else x)))"

definition span :: "json_parser_t \<Rightarrow> nat \<Rightarrow> nat \<Rightarrow> string" where
  "span p i j = map (json_at p) [i ..< j]"

definition isxdigit :: "char \<Rightarrow> bool" where
  "isxdigit c = (isdigit c \<or> (byte CHR ''a'' \<le> byte c \<and> byte c \<le> byte CHR ''f'')
                 \<or> (byte CHR ''A'' \<le> byte c \<and> byte c \<le> byte CHR ''F''))"

definition xdigit_value :: "char \<Rightarrow> nat" where
  "xdigit_value c =
     (if isdigit c then byte c - byte CHR ''0''
      else if byte CHR ''a'' \<le> byte c then byte c - byte CHR ''a'' + 10
      else byte c - byte CHR ''A'' + 10)"

definition digits_value :: "nat \<Rightarrow> string \<Rightarrow> nat" where
  "digits_value base s = foldl (\<lambda>a c. base * a + xdigit_value c) 0 s"

function skip_xdigits :: "json_parser_t \<Rightarrow> nat \<Rightarrow> nat" where
  "skip_xdigits p i = (if isxdigit (json_at p i) then skip_xdigits p (i + 1) else i)"
  by pat_completeness auto
termination
proof (relation "measure (\<lambda>(p, i). length (json p) - i)", goal_cases)
  case 1
  show ?case by simp
next
  case (2 p i)
  then have "i < length (json p)"
    by (auto simp: isxdigit_def isdigit_def json_at_def byte_def split: if_splits)
  then show ?case by simp
qed

declare skip_xdigits.simps [simp del]

text \<open>\<open>m * b ^ e\<close> for an integer exponent.\<close>

definition scale :: "rat \<Rightarrow> nat \<Rightarrow> int \<Rightarrow> rat" where
  "scale m b e = (if 0 \<le> e then m * of_nat b ^ nat e else m / of_nat b ^ nat (- e))"

text \<open>
  An exponent part at index \<open>i\<close>, introduced by one of the two letters \<open>lo\<close>, \<open>up\<close>:
  its value and the index after it. Without a digit after the letter and the optional sign
  there is no exponent part.
\<close>

definition strtod_exponent :: "json_parser_t \<Rightarrow> char \<Rightarrow> char \<Rightarrow> nat \<Rightarrow> int \<times> nat" where
  "strtod_exponent p lo up i =
     (if json_at p i = lo \<or> json_at p i = up
      then
        (let neg = (json_at p (i + 1) = CHR ''-'');
             j = (if json_at p (i + 1) = CHR ''+'' \<or> neg then i + 2 else i + 1)
         in if isdigit (json_at p j)
            then (let k = skip_digits p j;
                      e = int (digits_value 10 (span p j k))
                  in (if neg then - e else e, k))
            else (0, i))
      else (0, i))"

text \<open>
  The value of the decimal constant, and of the hexadecimal constant, that starts at index
  \<open>i\<close> after the sign, as the rational number that the text denotes (before rounding), and
  the index after it; \<open>None\<close> when there is no such constant.
\<close>

definition strtod_decimal :: "json_parser_t \<Rightarrow> nat \<Rightarrow> (rat \<times> nat) option" where
  "strtod_decimal p i =
     (let d1 = skip_digits p i;
          d2 = (if json_at p d1 = CHR ''.'' then skip_digits p (d1 + 1) else d1);
          int_digits = span p i d1;
          frac_digits = span p (d1 + 1) d2
      in if int_digits = [] \<and> frac_digits = [] then None
         else
           (case strtod_exponent p (CHR ''e'') (CHR ''E'') d2 of (e, k) \<Rightarrow>
              Some (scale (of_nat (digits_value 10 (int_digits @ frac_digits))) 10
                      (e - int (length frac_digits)), k)))"

definition strtod_hex :: "json_parser_t \<Rightarrow> nat \<Rightarrow> (rat \<times> nat) option" where
  "strtod_hex p i =
     (if json_at p i = CHR ''0'' \<and> (json_at p (i + 1) = CHR ''x'' \<or> json_at p (i + 1) = CHR ''X'')
      then
        (let h1 = skip_xdigits p (i + 2);
             h2 = (if json_at p h1 = CHR ''.'' then skip_xdigits p (h1 + 1) else h1);
             int_digits = span p (i + 2) h1;
             frac_digits = span p (h1 + 1) h2
         in if int_digits = [] \<and> frac_digits = [] then None
            else
              (case strtod_exponent p (CHR ''p'') (CHR ''P'') h2 of (e, k) \<Rightarrow>
                 Some (scale (of_nat (digits_value 16 (int_digits @ frac_digits))) 2
                         (e - 4 * int (length frac_digits)), k)))
      else None)"

function skip_spaces :: "json_parser_t \<Rightarrow> nat \<Rightarrow> nat" where
  "skip_spaces p i = (if isspace (json_at p i) then skip_spaces p (i + 1) else i)"
  by pat_completeness auto
termination
proof (relation "measure (\<lambda>(p, i). length (json p) - i)", goal_cases)
  case 1
  show ?case by simp
next
  case (2 p i)
  then have "i < length (json p)"
    by (auto simp: isspace_def json_at_def byte_def split: if_splits)
  then show ?case by simp
qed

declare skip_spaces.simps [simp del]

definition strtod :: "json_parser_t \<Rightarrow> nat \<Rightarrow> c_double \<times> nat" where
  "strtod p start =
     (let i = skip_spaces p start;
          neg = (json_at p i = CHR ''-'');
          i = (if json_at p i = CHR ''+'' \<or> neg then i + 1 else i)
      in case (case strtod_hex p i of Some r \<Rightarrow> Some r | None \<Rightarrow> strtod_decimal p i) of
           None \<Rightarrow> (Finite 0, start)
         | Some (v, k) \<Rightarrow> (round_binary64 neg v, k))"

subsection \<open>\<open>json_parse_number\<close>\<close>

definition json_parse_number :: "json_parser_t \<Rightarrow> int \<times> json_parser_t" where
  "json_parse_number p =
     (let start = pos p;
          i = (if json_at p start = CHR ''-'' then start + 1 else start)
      in case number_integer_part p i of
           None \<Rightarrow> (-1, json_set_error p JSON_ERROR_INVALID_NUMBER)
         | Some i \<Rightarrow>
        (case number_fraction_part p i of
           None \<Rightarrow> (-1, json_set_error p JSON_ERROR_INVALID_NUMBER)
         | Some i \<Rightarrow>
        (case number_exponent_part p i of
           None \<Rightarrow> (-1, json_set_error p JSON_ERROR_INVALID_NUMBER)
         | Some i \<Rightarrow>
        (case strtod p start of (num, end_ptr) \<Rightarrow>
           if end_ptr \<noteq> i then (-1, json_set_error p JSON_ERROR_INVALID_NUMBER)
           else
             (case json_add_token p JSON_TOKEN_NUMBER of (rc, p) \<Rightarrow>
                if rc \<noteq> 0 then (-1, p)
                else
                  (let token = last_token_ptr p;
                       p = token_store token
                             (\<lambda>t. t\<lparr>tok_value := Value_Number num, tok_start := pos p\<rparr>) p;
                       p = p\<lparr>pos := pos p + (i - start)\<rparr>;
                       p = token_store token (\<lambda>t. t\<lparr>tok_end := pos p\<rparr>) p
                   in (0, p)))))))"

section \<open>Literals\<close>

text \<open>
  \<open>strncmp(parser->json + parser->pos, literal, len)\<close> is zero exactly when the \<open>len\<close>
  bytes from \<open>pos\<close> are those of the literal (which contains no NUL).
\<close>

definition json_parse_literal ::
  "json_parser_t \<Rightarrow> string \<Rightarrow> json_token_type_t \<Rightarrow> int \<times> json_parser_t" where
  "json_parse_literal p literal ty =
     (let len = length literal
      in if pos p + len > length_p p then (-1, p)
         else if span p (pos p) (pos p + len) \<noteq> literal then (-1, p)
         else
           (case json_add_token (p\<lparr>pos := pos p + len\<rparr>) ty of (rc, p) \<Rightarrow>
              if rc \<noteq> 0 then (-1, p) else (0, p)))"

section \<open>Value dispatcher, object and array parsers\<close>

text \<open>
  \<open>json_parse_value\<close>, \<open>json_parse_object\<close> and \<open>json_parse_array\<close> call each other, and
  the \<open>while\<close> loops of the last two continue with the state that the nested call leaves.
  The straight-line code between the recursive calls is given first, one definition for each
  stretch.
\<close>

text \<open>
  The three statements that close a container:
  \<open>parser->pos++; token->end = parser->pos; parser->depth--;\<close>.
\<close>

definition close_container :: "token_ptr \<Rightarrow> json_parser_t \<Rightarrow> json_parser_t" where
  "close_container token p =
     (let p = p\<lparr>pos := pos p + 1\<rparr>;
          p = token_store token (\<lambda>t. t\<lparr>tok_end := pos p\<rparr>) p
      in p\<lparr>depth := depth p - 1\<rparr>)"

text \<open>
  \<open>json_parse_value\<close> after its \<open>'{'\<close> and \<open>'['\<close> cases: the remaining cases of the
  \<open>switch\<close>, none of which recurses.
\<close>

definition json_parse_scalar :: "json_parser_t \<Rightarrow> int \<times> json_parser_t" where
  "json_parse_scalar p =
     (let c = json_at p (pos p)
      in if c = CHR 0x22 then json_parse_string p
         else if c = CHR ''t'' then json_parse_literal p ''true'' JSON_TOKEN_TRUE
         else if c = CHR ''f'' then json_parse_literal p ''false'' JSON_TOKEN_FALSE
         else if c = CHR ''n'' then json_parse_literal p ''null'' JSON_TOKEN_NULL
         else if c = CHR ''-'' \<or> isdigit c \<or> c = CHR ''.'' then json_parse_number p
         else (-1, json_set_error p JSON_ERROR_INVALID_TOKEN))"

text \<open>
  \<open>json_parse_object\<close> from its first line to the \<open>while\<close>: the depth check (\<open>depth\<close> is
  converted to \<open>size_t\<close> for the comparison), the container token, the opening brace and
  the shortcut for \<open>{}\<close>. It goes on with the pointer \<open>obj_token\<close> and the parser.
\<close>

definition object_open :: "json_parser_t \<Rightarrow> (token_ptr \<times> json_parser_t) flow" where
  "object_open p =
     (if (word_of_int (depth p) :: 64 word) \<ge> max_depth p
      then Return (-1) (json_set_error p JSON_ERROR_NESTING_DEPTH)
      else
        (let start_pos = pos p;
             p = p\<lparr>depth := depth p + 1\<rparr>
         in case json_add_token p JSON_TOKEN_OBJECT of (rc, p) \<Rightarrow>
              if rc < 0 then Return (-1) p
              else
                (let obj_token = last_token_ptr p;
                     p = token_store obj_token
                           (\<lambda>t. t\<lparr>tok_start := start_pos, tok_end := 0\<rparr>) p;
                     p = p\<lparr>pos := pos p + 1\<rparr>;
                     p = json_skip_whitespace p
                 in if json_at p (pos p) = CHR ''}''
                    then Return 0 (close_container obj_token p)
                    else Go_On (obj_token, p))))"

text \<open>
  One iteration of the \<open>while\<close> of \<open>json_parse_object\<close>, from the loop condition to the
  call of \<open>json_parse_value\<close>. A false loop condition and the \<open>break\<close> both lead to the two
  statements after the loop.
\<close>

definition object_member_key :: "token_ptr \<Rightarrow> json_parser_t \<Rightarrow> json_parser_t flow" where
  "object_member_key obj_token p =
     (if pos p < length_p p
      then
        (let p = json_skip_whitespace p
         in if pos p \<ge> length_p p
            then Return (-1) (json_set_error p JSON_ERROR_UNEXPECTED_CHAR)
            else if json_at p (pos p) = CHR ''}''
            then Return 0 (close_container obj_token p)
            else if json_at p (pos p) \<noteq> CHR 0x22
            then Return (-1) (json_set_error p JSON_ERROR_UNEXPECTED_CHAR)
            else
              (case json_parse_string p of (rc, p) \<Rightarrow>
                 if rc \<noteq> 0 then Return (-1) p
                 else
                   (let p = json_skip_whitespace p;
                        c = json_at p (pos p);
                        p = p\<lparr>pos := pos p + 1\<rparr>
                    in if c \<noteq> CHR '':''
                       then Return (-1) (json_set_error p JSON_ERROR_UNEXPECTED_CHAR)
                       else Go_On p)))
      else Return (-1) (json_set_error p JSON_ERROR_UNEXPECTED_CHAR))"

text \<open>The rest of the iteration, after \<open>json_parse_value\<close> has returned 0. Both the
  \<open>continue\<close> and the end of the loop body go on with the next iteration.\<close>

definition object_member_end :: "json_parser_t \<Rightarrow> json_parser_t flow" where
  "object_member_end p =
     (let p = json_skip_whitespace p
      in if json_at p (pos p) = CHR ''}'' then Go_On p
         else
           (let c = json_at p (pos p);
                p = p\<lparr>pos := pos p + 1\<rparr>
            in if c \<noteq> CHR '',''
               then Return (-1) (json_set_error p JSON_ERROR_UNEXPECTED_CHAR)
               else Go_On p))"

text \<open>The same three stretches of \<open>json_parse_array\<close>.\<close>

definition array_open :: "json_parser_t \<Rightarrow> (token_ptr \<times> json_parser_t) flow" where
  "array_open p =
     (if (word_of_int (depth p) :: 64 word) \<ge> max_depth p
      then Return (-1) (json_set_error p JSON_ERROR_NESTING_DEPTH)
      else
        (let start_pos = pos p;
             p = p\<lparr>depth := depth p + 1\<rparr>
         in case json_add_token p JSON_TOKEN_ARRAY of (rc, p) \<Rightarrow>
              if rc < 0 then Return (-1) p
              else
                (let arr_token = last_token_ptr p;
                     p = token_store arr_token
                           (\<lambda>t. t\<lparr>tok_start := start_pos, tok_end := 0\<rparr>) p;
                     p = p\<lparr>pos := pos p + 1\<rparr>;
                     p = json_skip_whitespace p
                 in if json_at p (pos p) = CHR '']''
                    then Return 0 (close_container arr_token p)
                    else Go_On (arr_token, p))))"

definition array_element_begin :: "token_ptr \<Rightarrow> json_parser_t \<Rightarrow> json_parser_t flow" where
  "array_element_begin arr_token p =
     (if pos p < length_p p
      then
        (let p = json_skip_whitespace p
         in if pos p \<ge> length_p p
            then Return (-1) (json_set_error p JSON_ERROR_UNEXPECTED_CHAR)
            else if json_at p (pos p) = CHR '']''
            then Return 0 (close_container arr_token p)
            else Go_On p)
      else Return (-1) (json_set_error p JSON_ERROR_UNEXPECTED_CHAR))"

definition array_element_end :: "json_parser_t \<Rightarrow> json_parser_t flow" where
  "array_element_end p =
     (let p = json_skip_whitespace p
      in if json_at p (pos p) = CHR '']'' then Go_On p
         else if json_at p (pos p) = CHR '',''
         then
           (let p = p\<lparr>pos := pos p + 1\<rparr>;
                p = json_skip_whitespace p
            in if json_at p (pos p) = CHR '']''
               then Return (-1) (json_set_error p JSON_ERROR_UNEXPECTED_CHAR)
               else Go_On p)
         else Return (-1) (json_set_error p JSON_ERROR_UNEXPECTED_CHAR))"

text \<open>
  The recursion itself, on a fuel counter that every call and every loop iteration
  decrements; \<open>None\<close> means that the fuel ran out, never a result of the C code. That enough
  fuel always exists is \<open>json_parse_value_terminates\<close> below. \<open>object_loop\<close> and
  \<open>array_loop\<close> are the \<open>while(parser->pos < parser->length)\<close> loops together with the
  two statements after them.
\<close>

function (sequential) json_parse_value :: "nat \<Rightarrow> json_parser_t \<Rightarrow> (int \<times> json_parser_t) option"
  and json_parse_object :: "nat \<Rightarrow> json_parser_t \<Rightarrow> (int \<times> json_parser_t) option"
  and object_loop :: "nat \<Rightarrow> token_ptr \<Rightarrow> json_parser_t \<Rightarrow> (int \<times> json_parser_t) option"
  and json_parse_array :: "nat \<Rightarrow> json_parser_t \<Rightarrow> (int \<times> json_parser_t) option"
  and array_loop :: "nat \<Rightarrow> token_ptr \<Rightarrow> json_parser_t \<Rightarrow> (int \<times> json_parser_t) option"
where
  "json_parse_value 0 p = None"
| "json_parse_value (Suc n) p =
     (let p = json_skip_whitespace p
      in if pos p \<ge> length_p p then Some (-1, p)
         else if json_at p (pos p) = CHR ''{'' then json_parse_object n p
         else if json_at p (pos p) = CHR ''['' then json_parse_array n p
         else Some (json_parse_scalar p))"
| "json_parse_object 0 p = None"
| "json_parse_object (Suc n) p =
     (case object_open p of
        Return rc p \<Rightarrow> Some (rc, p)
      | Go_On (obj_token, p) \<Rightarrow> object_loop n obj_token p)"
| "object_loop 0 obj_token p = None"
| "object_loop (Suc n) obj_token p =
     (case object_member_key obj_token p of
        Return rc p \<Rightarrow> Some (rc, p)
      | Go_On p \<Rightarrow>
          (case json_parse_value n p of
             None \<Rightarrow> None
           | Some (rc, p) \<Rightarrow>
               if rc \<noteq> 0 then Some (-1, p)
               else
                 (case object_member_end p of
                    Return rc p \<Rightarrow> Some (rc, p)
                  | Go_On p \<Rightarrow> object_loop n obj_token p)))"
| "json_parse_array 0 p = None"
| "json_parse_array (Suc n) p =
     (case array_open p of
        Return rc p \<Rightarrow> Some (rc, p)
      | Go_On (arr_token, p) \<Rightarrow> array_loop n arr_token p)"
| "array_loop 0 arr_token p = None"
| "array_loop (Suc n) arr_token p =
     (case array_element_begin arr_token p of
        Return rc p \<Rightarrow> Some (rc, p)
      | Go_On p \<Rightarrow>
          (case json_parse_value n p of
             None \<Rightarrow> None
           | Some (rc, p) \<Rightarrow>
               if rc \<noteq> 0 then Some (-1, p)
               else
                 (case array_element_end p of
                    Return rc p \<Rightarrow> Some (rc, p)
                  | Go_On p \<Rightarrow> array_loop n arr_token p)))"

  by pat_completeness auto
termination
  by (relation "measure (\<lambda>x. case x of
          Inl (Inl (n, p)) \<Rightarrow> n
        | Inl (Inr (n, p)) \<Rightarrow> n
        | Inr (Inl (n, token, p)) \<Rightarrow> n
        | Inr (Inr (Inl (n, p))) \<Rightarrow> n
        | Inr (Inr (Inr (n, token, p))) \<Rightarrow> n)") auto

section \<open>\<open>json_parser_parse\<close>\<close>

text \<open>
  Fuel that is always enough for the value that starts at the cursor: three units for
  every byte that is left, and three more.
\<close>

definition parse_fuel :: "json_parser_t \<Rightarrow> nat" where
  "parse_fuel p = 3 * (length_p p - pos p) + 3"

text \<open>
  \<open>json_parser_parse\<close> returns \<open>parser->error\<close> and leaves its effects in \<open>*parser\<close>: the
  result here is the parser after the call, whose \<open>error\<close> field is the returned code.
\<close>

definition json_parser_parse :: "json_parser_t \<Rightarrow> json_parser_t option" where
  "json_parser_parse p =
     (let p = p\<lparr>error := JSON_ERROR_NONE,
                error_writes := error_writes p @ [JSON_ERROR_NONE]\<rparr>;
          p = json_skip_whitespace p
      in if pos p \<ge> length_p p then Some (json_set_error p JSON_ERROR_INVALID_TOKEN)
         else
           (case json_parse_value (parse_fuel p) p of
              None \<Rightarrow> None
            | Some (rc, p) \<Rightarrow>
                if rc < 0 then Some p
                else
                  (let p = json_skip_whitespace p
                   in if pos p \<noteq> length_p p
                      then Some (json_set_error p JSON_ERROR_TRAILING_CHARS)
                      else Some p)))"

text \<open>
  The way every test and demo of the repository runs the parser:
  \<open>json_parser_init(&parser, json, strlen(json)); json_parser_parse(&parser);\<close>.
\<close>

definition parse_text :: "(nat \<Rightarrow> alloc_outcome) \<Rightarrow> string \<Rightarrow> json_parser_t option" where
  "parse_text env s = json_parser_parse (json_parser_init env s (length s))"

text \<open>An environment in which every allocation request succeeds without moving anything.\<close>

definition heap_ok :: "nat \<Rightarrow> alloc_outcome" where
  "heap_ok = (\<lambda>_. Alloc_In_Place)"


text \<open>
  The documents used for the nesting limit: \<open>nested n\<close> is \<open>n\<close> opening brackets followed by
  \<open>n\<close> closing ones, parsed with \<open>max_depth\<close> set by the caller.
\<close>

definition nested :: "nat \<Rightarrow> string" where
  "nested n = replicate n CHR ''['' @ replicate n CHR '']''"



text \<open>
  The documents used for the token array: \<open>empties k\<close> is an array of \<open>k + 1\<close> empty
  arrays, \<open>[[],[],...,[]]\<close>, which takes \<open>k + 2\<close> tokens; \<open>grown p q\<close> says what one
  \<open>json_add_token\<close> from \<open>p\<close> to \<open>q\<close> does to the token array; \<open>heap_moves\<close> is an
  allocator whose every \<open>realloc\<close> moves the block.
\<close>

definition empties :: "nat \<Rightarrow> string" where
  "empties k = CHR ''['' # concat (replicate k ''[],'') @ ''[]]''"

definition in_empties :: "nat \<Rightarrow> json_parser_t \<Rightarrow> bool" where
  "in_empties k p \<longleftrightarrow>
     json p = empties k \<and> length_p p = 3 * k + 4 \<and> (\<forall>i. heap p i \<noteq> Alloc_Fails)
     \<and> 1 < unat (max_depth p)"

definition grown :: "json_parser_t \<Rightarrow> json_parser_t \<Rightarrow> bool" where
  "grown p q \<longleftrightarrow>
     (if token_cap p \<le> length (tokens p)
      then tokens_addr q
             = (if heap p (heap_calls p) = Alloc_Moves then tokens_addr p + 1 else tokens_addr p)
           \<and> token_cap q = token_cap p * 2 \<and> heap_calls q = heap_calls p + 1
      else tokens_addr q = tokens_addr p \<and> token_cap q = token_cap p
           \<and> heap_calls q = heap_calls p)"

definition heap_moves :: "nat \<Rightarrow> alloc_outcome" where
  "heap_moves = (\<lambda>_. Alloc_Moves)"

section \<open>What every handler preserves\<close>

text \<open>
  The lemmas of this section say what a call of a parsing function can change. They are
  stated once for the straight-line stretches and then carried through the recursion by
  induction on the fuel.
\<close>

lemma json_skip_whitespace_only_pos:
  "\<exists>k. json_skip_whitespace p = p\<lparr>pos := pos p + k\<rparr>"
proof (induction p rule: json_skip_whitespace.induct)
  case (1 p)
  show ?case
  proof (cases "pos p < length_p p \<and> isspace (json_at p (pos p))")
    case True
    then have eq: "json_skip_whitespace p = json_skip_whitespace (p\<lparr>pos := pos p + 1\<rparr>)"
      by (simp add: json_skip_whitespace.simps [of p])
    from 1 [OF True] obtain k where
      "json_skip_whitespace (p\<lparr>pos := pos p + 1\<rparr>) = p\<lparr>pos := pos p + 1 + k\<rparr>"
      by auto
    with eq show ?thesis
      by (intro exI [of _ "1 + k"]) simp
  next
    case False
    then have "json_skip_whitespace p = p"
      by (subst json_skip_whitespace.simps) auto
    then show ?thesis
      by (intro exI [of _ 0]) simp
  qed
qed

lemma json_skip_whitespace_fields [simp]:
  "json (json_skip_whitespace p) = json p"
  "length_p (json_skip_whitespace p) = length_p p"
  "tokens (json_skip_whitespace p) = tokens p"
  "tokens_addr (json_skip_whitespace p) = tokens_addr p"
  "token_cap (json_skip_whitespace p) = token_cap p"
  "max_depth (json_skip_whitespace p) = max_depth p"
  "max_string (json_skip_whitespace p) = max_string p"
  "error (json_skip_whitespace p) = error p"
  "depth (json_skip_whitespace p) = depth p"
  "heap (json_skip_whitespace p) = heap p"
  "heap_calls (json_skip_whitespace p) = heap_calls p"
  "error_writes (json_skip_whitespace p) = error_writes p"
  using json_skip_whitespace_only_pos [of p] by auto

text \<open>The number of bytes that \<open>json_skip_whitespace\<close> passes over.\<close>

definition skipped :: "json_parser_t \<Rightarrow> nat" where
  "skipped p = pos (json_skip_whitespace p) - pos p"

lemma pos_json_skip_whitespace [simp]: "pos (json_skip_whitespace p) = pos p + skipped p"
  using json_skip_whitespace_only_pos [of p] by (auto simp: skipped_def)

lemma json_at_json_skip_whitespace [simp]: "json_at (json_skip_whitespace p) i = json_at p i"
  by (simp add: json_at_def)


text \<open>
  \<open>same_input\<close>: the fields that no parsing function assigns. \<open>latched rc\<close>: the call
  left the error slot alone, or it failed and wrote it once, from \<open>JSON_ERROR_NONE\<close>.
  \<open>handler_ok rc p p'\<close>: a call that started in \<open>p\<close> and returned \<open>rc\<close> in \<open>p'\<close>
  kept the input and the limits, did not move the cursor back, and latched.
\<close>

definition same_input :: "json_parser_t \<Rightarrow> json_parser_t \<Rightarrow> bool" where
  "same_input p p' \<longleftrightarrow>
     json p' = json p \<and> length_p p' = length_p p \<and> max_depth p' = max_depth p
     \<and> max_string p' = max_string p \<and> heap p' = heap p"

definition latched :: "int \<Rightarrow> json_parser_t \<Rightarrow> json_parser_t \<Rightarrow> bool" where
  "latched rc p p' \<longleftrightarrow>
     (error p' = error p \<and> error_writes p' = error_writes p)
     \<or> (rc \<noteq> 0 \<and> error p = JSON_ERROR_NONE \<and> error p' \<noteq> JSON_ERROR_NONE
        \<and> error_writes p' = error_writes p @ [error p'])"

definition handler_ok :: "int \<Rightarrow> json_parser_t \<Rightarrow> json_parser_t \<Rightarrow> bool" where
  "handler_ok rc p p' \<longleftrightarrow>
     same_input p p' \<and> pos p \<le> pos p' \<and> heap_calls p \<le> heap_calls p'
     \<and> latched rc p p' \<and> (rc = 0 \<or> rc = - 1)"

lemmas handler_ok_defs = handler_ok_def same_input_def latched_def

lemma handler_ok_refl [simp]: "handler_ok 0 p p"
  by (simp add: handler_ok_defs)

lemma handler_ok_trans: "handler_ok 0 p q \<Longrightarrow> handler_ok rc q r \<Longrightarrow> handler_ok rc p r"
  by (auto simp: handler_ok_defs)

lemma handler_ok_skip [simp]: "handler_ok 0 p (json_skip_whitespace p)"
  by (simp add: handler_ok_defs)

lemma handler_ok_token_store [simp]: "handler_ok 0 p (token_store t f p)"
  by (simp add: handler_ok_defs token_store_def)

lemma handler_ok_set_error [simp]:
  "e \<noteq> JSON_ERROR_NONE \<Longrightarrow> handler_ok (- 1) p (json_set_error p e)"
  by (simp add: handler_ok_defs json_set_error_def)

lemma json_set_error_fields [simp]:
  "json (json_set_error p e) = json p"
  "length_p (json_set_error p e) = length_p p"
  "pos (json_set_error p e) = pos p"
  "tokens (json_set_error p e) = tokens p"
  "tokens_addr (json_set_error p e) = tokens_addr p"
  "token_cap (json_set_error p e) = token_cap p"
  "max_depth (json_set_error p e) = max_depth p"
  "max_string (json_set_error p e) = max_string p"
  "depth (json_set_error p e) = depth p"
  "heap (json_set_error p e) = heap p"
  "heap_calls (json_set_error p e) = heap_calls p"
  "error (json_set_error p e) = (if error p = JSON_ERROR_NONE then e else error p)"
  "error_writes (json_set_error p e) =
     (if error p = JSON_ERROR_NONE then error_writes p @ [e] else error_writes p)"
  by (simp_all add: json_set_error_def)

lemma token_store_fields [simp]:
  "json (token_store t f p) = json p"
  "length_p (token_store t f p) = length_p p"
  "pos (token_store t f p) = pos p"
  "length (tokens (token_store t f p)) = length (tokens p)"
  "tokens_addr (token_store t f p) = tokens_addr p"
  "token_cap (token_store t f p) = token_cap p"
  "max_depth (token_store t f p) = max_depth p"
  "max_string (token_store t f p) = max_string p"
  "error (token_store t f p) = error p"
  "depth (token_store t f p) = depth p"
  "heap (token_store t f p) = heap p"
  "heap_calls (token_store t f p) = heap_calls p"
  "error_writes (token_store t f p) = error_writes p"
  by (simp_all add: token_store_def)

lemma handler_ok_set_error_after:
  "e \<noteq> JSON_ERROR_NONE \<Longrightarrow> handler_ok 0 p q \<Longrightarrow> handler_ok (- 1) p (json_set_error q e)"
  by (auto simp: handler_ok_defs json_set_error_def)

lemma handler_ok_fail: "handler_ok 0 p q \<Longrightarrow> handler_ok (- 1) p q"
  by (auto simp: handler_ok_defs)

lemma handler_ok_add_token:
  "json_add_token p ty = (rc, p') \<Longrightarrow> handler_ok rc p p' \<and> pos p' = pos p \<and> depth p' = depth p"
  by (auto simp: json_add_token_def handler_ok_defs json_set_error_def Let_def split: if_splits)

lemma handler_ok_pos [simp]: "handler_ok 0 p (p\<lparr>pos := pos p + k\<rparr>)"
  by (simp add: handler_ok_defs)

lemma handler_ok_unicode_escape:
  "json_parse_unicode_escape q b = (rc, p', b') \<Longrightarrow> handler_ok 0 q p' \<and> depth p' = depth q"
  by (drule json_parse_unicode_escape_frame) auto

lemma string_put_Return:
  "string_put q b c = Return rc p' \<Longrightarrow> handler_ok rc q p' \<and> depth p' = depth q \<and> rc = - 1"
  by (auto simp: string_put_def split: if_splits)

lemma string_put_Go_On: "string_put q b c = Go_On (p', b') \<Longrightarrow> p' = q"
  by (auto simp: string_put_def split: if_splits)

lemma string_step_Return:
  assumes "string_step tok p b = Return rc p'"
  shows "handler_ok rc p p' \<and> depth p' = depth p \<and> pos p < pos p'"
proof -
  let ?p1 = "p\<lparr>pos := pos p + 1\<rparr>" and ?p2 = "p\<lparr>pos := pos p + 2\<rparr>"
  have a: "handler_ok 0 p ?p1" "handler_ok 0 p ?p2" by (simp_all add: handler_ok_defs)
  from assms consider
      (close) "rc = 0" "p' = token_store tok (\<lambda>t. t\<lparr>tok_value := Value_String b, tok_end := pos ?p1 - 1\<rparr>) ?p1"
    | (err1) e where "rc = - 1" "p' = json_set_error ?p1 e" "e \<noteq> JSON_ERROR_NONE"
    | (err2) e where "rc = - 1" "p' = json_set_error ?p2 e" "e \<noteq> JSON_ERROR_NONE"
    | (uni) q bb r where "rc = - 1" "json_parse_unicode_escape ?p2 b = (r, q, bb)"
        "p' = json_set_error q JSON_ERROR_INVALID_UNICODE"
    | (put1) c where "string_put ?p1 b c = Return rc p'"
    | (put2) c where "string_put ?p2 b c = Return rc p'"
    by (auto simp: string_step_def Let_def split: if_splits prod.splits option.splits)
  then show ?thesis
  proof cases
    case close
    then show ?thesis by (simp add: handler_ok_defs token_store_def)
  next
    case err1
    with a show ?thesis by (simp add: handler_ok_set_error_after)
  next
    case err2
    with a show ?thesis by (simp add: handler_ok_set_error_after)
  next
    case uni
    from handler_ok_unicode_escape [OF uni(2)] have "handler_ok 0 p q" "depth q = depth p" "pos p < pos q"
      using a by (auto simp: handler_ok_defs)
    with uni(1,3) show ?thesis by (simp add: handler_ok_set_error_after)
  next
    case put1
    from string_put_Return [OF this] show ?thesis
      by (auto simp: handler_ok_defs)
  next
    case put2
    from string_put_Return [OF this] show ?thesis
      by (auto simp: handler_ok_defs)
  qed
qed

lemma string_step_Go_On:
  assumes "string_step tok p b = Go_On (p', b')"
  shows "handler_ok 0 p p' \<and> depth p' = depth p \<and> pos p < pos p'"
proof -
  let ?p1 = "p\<lparr>pos := pos p + 1\<rparr>" and ?p2 = "p\<lparr>pos := pos p + 2\<rparr>"
  from assms consider
      (uni) "json_parse_unicode_escape ?p2 b = (0, p', b')"
    | (put1) "p' = ?p1"
    | (put2) "p' = ?p2"
    by (auto simp: string_step_def Let_def split: if_splits prod.splits option.splits
        dest!: string_put_Go_On)
  then show ?thesis
  proof cases
    case uni
    from handler_ok_unicode_escape [OF uni] show ?thesis
      by (auto simp: handler_ok_defs)
  qed (simp_all add: handler_ok_defs)
qed

lemma handler_ok_string_loop:
  "string_loop tok p buf = (rc, p') \<Longrightarrow>
     handler_ok rc p p' \<and> depth p' = depth p \<and> (rc = 0 \<longrightarrow> pos p < pos p')"
proof (induction tok p buf arbitrary: rc p' rule: string_loop.induct)
  case (1 token p buffer)
  show ?case
  proof (cases "pos p < length_p p")
    case False
    with "1.prems" have "rc = - 1" "p' = json_set_error p JSON_ERROR_UNEXPECTED_CHAR"
      by (subst (asm) string_loop.simps; simp)+
    then show ?thesis by simp
  next
    case True
    show ?thesis
    proof (cases "string_step token p buffer")
      case (Return r q)
      with True "1.prems" have "rc = r" "p' = q"
        by (subst (asm) string_loop.simps; simp)+
      with string_step_Return [OF Return] show ?thesis by simp
    next
      case (Go_On x)
      obtain q b where x: "x = (q, b)" by (cases x)
      with True Go_On "1.prems" have "string_loop token q b = (rc, p')"
        by (subst (asm) string_loop.simps) simp
      from "1.IH" [OF True Go_On x [symmetric] this] string_step_Go_On [OF Go_On [unfolded x]]
      show ?thesis
        by (auto simp: handler_ok_defs)
    qed
  qed
qed


lemma handler_ok_parse_string:
  assumes "json_parse_string p = (rc, p')"
  shows "handler_ok rc p p' \<and> depth p' = depth p \<and> (rc = 0 \<longrightarrow> pos p < pos p')"
proof -
  obtain r1 p1 where add: "json_add_token p JSON_TOKEN_STRING = (r1, p1)"
    by (cases "json_add_token p JSON_TOKEN_STRING")
  note a1 = handler_ok_add_token [OF add]
  show ?thesis
  proof (cases "r1 \<noteq> 0")
    case True
    with assms add a1 show ?thesis
      by (auto simp: json_parse_string_def handler_ok_defs)
  next
    case False
    define p2 where "p2 = token_store (last_token_ptr p1) (\<lambda>t. t\<lparr>tok_start := pos p1 + 1\<rparr>) p1"
    define p3 where "p3 = p2\<lparr>heap_calls := heap_calls p2 + 1\<rparr>"
    have ok3: "handler_ok 0 p p3" "depth p3 = depth p" "pos p3 = pos p"
      using a1 False by (auto simp: p3_def p2_def handler_ok_defs)
    show ?thesis
    proof (cases "heap p2 (heap_calls p2) = Alloc_Fails")
      case True
      with assms add False have "rc = - 1" "p' = json_set_error p3 JSON_ERROR_ALLOCATION_FAILED"
        by (simp_all add: json_parse_string_def Let_def p3_def p2_def)
      with ok3 show ?thesis by (simp add: handler_ok_set_error_after)
    next
      case nofail: False
      with assms add False
      have "string_loop (last_token_ptr p1) (p3\<lparr>pos := pos p3 + 1\<rparr>) [] = (rc, p')"
        by (simp add: json_parse_string_def Let_def p3_def p2_def)
      from handler_ok_string_loop [OF this] ok3 show ?thesis
        by (auto simp: handler_ok_defs)
    qed
  qed
qed

lemma skip_digits_ge: "i \<le> skip_digits p i"
proof (induction p i rule: skip_digits.induct)
  case (1 p i)
  then show ?case
    by (subst skip_digits.simps) auto
qed

lemma skip_digits_ge_trans [simp]: "i \<le> j \<Longrightarrow> i \<le> skip_digits p j"
  by (rule order_trans [OF _ skip_digits_ge])

lemma number_parts_advance:
  "number_integer_part p i = Some j \<Longrightarrow> i < j"
  "number_fraction_part p i = Some j \<Longrightarrow> i \<le> j"
  "number_exponent_part p i = Some j \<Longrightarrow> i \<le> j"
proof -
  have "i < skip_digits p (Suc i)"
    using skip_digits_ge [of "Suc i" p] by linarith
  then show "number_integer_part p i = Some j \<Longrightarrow> i < j"
    by (auto simp: number_integer_part_def split: if_splits)
  show "number_fraction_part p i = Some j \<Longrightarrow> i \<le> j"
    by (auto simp: number_fraction_part_def split: if_splits)
  show "number_exponent_part p i = Some j \<Longrightarrow> i \<le> j"
    by (auto simp: number_exponent_part_def Let_def split: if_splits)
qed

lemma handler_ok_parse_number:
  assumes "json_parse_number p = (rc, p')"
  shows "handler_ok rc p p' \<and> depth p' = depth p \<and> (rc = 0 \<longrightarrow> pos p < pos p')"
proof -
  define i0 where "i0 = (if json_at p (pos p) = CHR ''-'' then pos p + 1 else pos p)"
  have fail: ?thesis if "rc = - 1" "p' = json_set_error p JSON_ERROR_INVALID_NUMBER"
    using that by simp
  show ?thesis
  proof (cases "number_integer_part p i0")
    case None
    with assms show ?thesis
      by (intro fail) (simp_all add: json_parse_number_def i0_def)
  next
    case i1: (Some i1)
    show ?thesis
    proof (cases "number_fraction_part p i1")
      case None
      with assms i1 show ?thesis
        by (intro fail) (simp_all add: json_parse_number_def i0_def)
    next
      case i2: (Some i2)
      show ?thesis
      proof (cases "number_exponent_part p i2")
        case None
        with assms i1 i2 show ?thesis
          by (intro fail) (simp_all add: json_parse_number_def i0_def)
      next
        case i3: (Some i3)
        obtain num e where st: "strtod p (pos p) = (num, e)"
          by (cases "strtod p (pos p)")
        obtain r1 p1 where add: "json_add_token p JSON_TOKEN_NUMBER = (r1, p1)"
          by (cases "json_add_token p JSON_TOKEN_NUMBER")
        note a1 = handler_ok_add_token [OF add]
        from number_parts_advance(1) [OF i1] number_parts_advance(2) [OF i2]
          number_parts_advance(3) [OF i3]
        have adv: "pos p < i3" by (auto simp: i0_def split: if_splits)
        show ?thesis
        proof (cases "e \<noteq> i3")
          case True
          with assms i1 i2 i3 st show ?thesis
            by (intro fail) (simp_all add: json_parse_number_def i0_def)
        next
          case same: False
          show ?thesis
          proof (cases "r1 \<noteq> 0")
            case True
            with assms i1 i2 i3 st same add have "rc = - 1" "p' = p1"
              by (simp_all add: json_parse_number_def i0_def)
            with a1 True show ?thesis by (auto simp: handler_ok_defs)
          next
            case False
            with assms i1 i2 i3 st same add have "rc = 0"
              and "p' = token_store (last_token_ptr p1) (\<lambda>t. t\<lparr>tok_end := pos p1 + (i3 - pos p)\<rparr>)
               ((token_store (last_token_ptr p1)
                   (\<lambda>t. t\<lparr>tok_value := Value_Number num, tok_start := pos p1\<rparr>) p1)
                \<lparr>pos := pos p1 + (i3 - pos p)\<rparr>)"
              by (simp_all add: json_parse_number_def i0_def Let_def)
            with a1 False adv show ?thesis by (simp add: handler_ok_defs)
          qed
        qed
      qed
    qed
  qed
qed

lemma handler_ok_parse_literal:
  assumes "json_parse_literal p lit ty = (rc, p')"
  shows "handler_ok rc p p' \<and> depth p' = depth p \<and> (rc = 0 \<longrightarrow> pos p' = pos p + length lit)"
proof -
  from assms consider "rc = - 1" "p' = p"
    | r1 where "json_add_token (p\<lparr>pos := pos p + length lit\<rparr>) ty = (r1, p')"
        "rc = (if r1 \<noteq> 0 then - 1 else 0)"
    by (auto simp: json_parse_literal_def Let_def split: if_splits prod.splits)
  then show ?thesis
  proof cases
    case 1
    then show ?thesis by (simp add: handler_ok_defs)
  next
    case 2
    from handler_ok_add_token [OF 2(1)] 2(2) show ?thesis
      by (auto simp: handler_ok_defs)
  qed
qed

lemma handler_ok_parse_scalar:
  assumes "json_parse_scalar p = (rc, p')"
  shows "handler_ok rc p p' \<and> depth p' = depth p \<and> (rc = 0 \<longrightarrow> pos p < pos p')"
proof -
  from assms have
    "json_parse_string p = (rc, p')
     \<or> json_parse_literal p ''true'' JSON_TOKEN_TRUE = (rc, p')
     \<or> json_parse_literal p ''false'' JSON_TOKEN_FALSE = (rc, p')
     \<or> json_parse_literal p ''null'' JSON_TOKEN_NULL = (rc, p')
     \<or> json_parse_number p = (rc, p')
     \<or> (rc = - 1 \<and> p' = json_set_error p JSON_ERROR_INVALID_TOKEN)"
    unfolding json_parse_scalar_def Let_def by (simp split: if_splits)
  then show ?thesis
  proof (elim disjE conjE)
    assume "json_parse_string p = (rc, p')"
    then show ?thesis by (rule handler_ok_parse_string)
  next
    assume "json_parse_literal p ''true'' JSON_TOKEN_TRUE = (rc, p')"
    from handler_ok_parse_literal [OF this] show ?thesis by simp
  next
    assume "json_parse_literal p ''false'' JSON_TOKEN_FALSE = (rc, p')"
    from handler_ok_parse_literal [OF this] show ?thesis by simp
  next
    assume "json_parse_literal p ''null'' JSON_TOKEN_NULL = (rc, p')"
    from handler_ok_parse_literal [OF this] show ?thesis by simp
  next
    assume "json_parse_number p = (rc, p')"
    then show ?thesis by (rule handler_ok_parse_number)
  next
    assume "rc = - 1" "p' = json_set_error p JSON_ERROR_INVALID_TOKEN"
    then show ?thesis by simp
  qed
qed


lemma close_container_fields [simp]:
  "json (close_container t p) = json p"
  "length_p (close_container t p) = length_p p"
  "pos (close_container t p) = pos p + 1"
  "length (tokens (close_container t p)) = length (tokens p)"
  "tokens_addr (close_container t p) = tokens_addr p"
  "token_cap (close_container t p) = token_cap p"
  "max_depth (close_container t p) = max_depth p"
  "max_string (close_container t p) = max_string p"
  "error (close_container t p) = error p"
  "depth (close_container t p) = depth p - 1"
  "heap (close_container t p) = heap p"
  "heap_calls (close_container t p) = heap_calls p"
  "error_writes (close_container t p) = error_writes p"
  by (simp_all add: close_container_def Let_def)

lemma handler_ok_close:
  "handler_ok 0 p q \<Longrightarrow> handler_ok 0 p (close_container t q)"
  by (simp add: handler_ok_defs)

lemma object_member_end_Return:
  "object_member_end p = Return rc p' \<Longrightarrow> handler_ok rc p p' \<and> rc = - 1 \<and> depth p' = depth p"
  by (auto simp: object_member_end_def Let_def handler_ok_defs split: if_splits)

lemma object_member_end_Go_On:
  "object_member_end p = Go_On p' \<Longrightarrow> handler_ok 0 p p' \<and> depth p' = depth p"
  by (auto simp: object_member_end_def Let_def handler_ok_defs split: if_splits)

lemma array_element_end_Return:
  "array_element_end p = Return rc p' \<Longrightarrow> handler_ok rc p p' \<and> rc = - 1 \<and> depth p' = depth p"
  by (auto simp: array_element_end_def Let_def handler_ok_defs split: if_splits)

lemma array_element_end_Go_On:
  "array_element_end p = Go_On p' \<Longrightarrow> handler_ok 0 p p' \<and> depth p' = depth p"
  by (auto simp: array_element_end_def Let_def handler_ok_defs split: if_splits)

lemma array_element_begin_Return:
  "array_element_begin t p = Return rc p' \<Longrightarrow>
     handler_ok rc p p' \<and>
     (if rc = 0 then pos p < pos p' \<and> depth p' = depth p - 1 else depth p' = depth p)"
  by (auto simp: array_element_begin_def Let_def handler_ok_defs split: if_splits)

lemma array_element_begin_Go_On:
  "array_element_begin t p = Go_On p' \<Longrightarrow>
     handler_ok 0 p p' \<and> depth p' = depth p \<and> pos p' < length_p p"
  by (auto simp: array_element_begin_def Let_def handler_ok_defs split: if_splits)


lemma object_member_key_Return:
  "object_member_key t p = Return rc p' \<Longrightarrow>
     handler_ok rc p p' \<and>
     (if rc = 0 then pos p < pos p' \<and> depth p' = depth p - 1 else depth p' = depth p)"
  by (auto simp: object_member_key_def Let_def handler_ok_defs
      split: if_splits prod.splits dest!: handler_ok_parse_string)

lemma object_member_key_Go_On:
  "object_member_key t p = Go_On p' \<Longrightarrow>
     handler_ok 0 p p' \<and> depth p' = depth p \<and> pos p < pos p' \<and> pos p < length_p p"
  by (auto simp: object_member_key_def Let_def handler_ok_defs
      split: if_splits prod.splits dest!: handler_ok_parse_string)

text \<open>The depth counter is within its bounds: not negative, at most \<open>max_depth\<close>.\<close>

definition depth_ok :: "json_parser_t \<Rightarrow> bool" where
  "depth_ok p \<longleftrightarrow> 0 \<le> depth p \<and> depth p \<le> uint (max_depth p)"

lemma depth_check_passed:
  assumes "depth_ok p" and "\<not> max_depth p \<le> word_of_int (depth p)"
  shows "depth p < uint (max_depth p)"
proof -
  have "uint (max_depth p) < 2 ^ 64"
    using uint_bounded [of "max_depth p"] by simp
  with assms(1) have "uint (word_of_int (depth p) :: 64 word) = depth p"
    by (simp add: depth_ok_def uint_word_of_int take_bit_eq_mod)
  with assms(2) show ?thesis
    by (simp add: word_le_def)
qed

lemma object_open_Return:
  "object_open p = Return rc p' \<Longrightarrow>
     handler_ok rc p p' \<and> (rc = 0 \<longrightarrow> pos p < pos p' \<and> depth p' = depth p)
     \<and> (depth p' = depth p \<or> depth p' = depth p + 1 \<and> \<not> max_depth p \<le> word_of_int (depth p))"
  by (auto simp: object_open_def Let_def handler_ok_defs
      split: if_splits prod.splits dest!: handler_ok_add_token)

lemma object_open_Go_On:
  "object_open p = Go_On (t, p') \<Longrightarrow>
     handler_ok 0 p p' \<and> pos p < pos p' \<and> depth p' = depth p + 1
     \<and> \<not> max_depth p \<le> word_of_int (depth p)"
  by (auto simp: object_open_def Let_def handler_ok_defs
      split: if_splits prod.splits dest!: handler_ok_add_token)

lemma array_open_Return:
  "array_open p = Return rc p' \<Longrightarrow>
     handler_ok rc p p' \<and> (rc = 0 \<longrightarrow> pos p < pos p' \<and> depth p' = depth p)
     \<and> (depth p' = depth p \<or> depth p' = depth p + 1 \<and> \<not> max_depth p \<le> word_of_int (depth p))"
  by (auto simp: array_open_def Let_def handler_ok_defs
      split: if_splits prod.splits dest!: handler_ok_add_token)

lemma array_open_Go_On:
  "array_open p = Go_On (t, p') \<Longrightarrow>
     handler_ok 0 p p' \<and> pos p < pos p' \<and> depth p' = depth p + 1
     \<and> \<not> max_depth p \<le> word_of_int (depth p)"
  by (auto simp: array_open_def Let_def handler_ok_defs
      split: if_splits prod.splits dest!: handler_ok_add_token)


text \<open>
  \<open>call_ok\<close> is what holds of a call of \<open>json_parse_value\<close>, \<open>json_parse_object\<close> or
  \<open>json_parse_array\<close>: on success the cursor has moved forward and the depth is what it
  was; the depth never ends below where it started; bounds on the depth are kept.
  \<open>loop_ok\<close> is the same for the two loops, which start one level deeper than they end.
\<close>

definition call_ok :: "int \<Rightarrow> json_parser_t \<Rightarrow> json_parser_t \<Rightarrow> bool" where
  "call_ok rc p p' \<longleftrightarrow>
     handler_ok rc p p' \<and> (rc = 0 \<longrightarrow> pos p < pos p' \<and> depth p' = depth p)
     \<and> depth p \<le> depth p' \<and> (depth_ok p \<longrightarrow> depth_ok p')"

definition loop_ok :: "int \<Rightarrow> json_parser_t \<Rightarrow> json_parser_t \<Rightarrow> bool" where
  "loop_ok rc p p' \<longleftrightarrow>
     handler_ok rc p p' \<and> (rc = 0 \<longrightarrow> pos p < pos p' \<and> depth p' = depth p - 1)
     \<and> depth p - 1 \<le> depth p' \<and> (depth_ok p \<and> 1 \<le> depth p \<longrightarrow> depth_ok p')"

lemma depth_ok_cong: "same_input p q \<Longrightarrow> depth q = depth p \<Longrightarrow> depth_ok q = depth_ok p"
  by (simp add: depth_ok_def same_input_def)

lemma call_ok_leaf:
  "handler_ok rc p p' \<and> depth p' = depth p \<and> (rc = 0 \<longrightarrow> pos p < pos p') \<Longrightarrow> call_ok rc p p'"
  by (auto simp: call_ok_def depth_ok_def handler_ok_defs)

lemma call_ok_pre:
  "handler_ok 0 p q \<Longrightarrow> depth q = depth p \<Longrightarrow> call_ok rc q p' \<Longrightarrow> call_ok rc p p'"
  by (auto simp: call_ok_def depth_ok_def handler_ok_defs)

lemma loop_ok_pre:
  "handler_ok 0 p q \<Longrightarrow> depth q = depth p \<Longrightarrow> loop_ok rc q p' \<Longrightarrow> loop_ok rc p p'"
  by (auto simp: loop_ok_def depth_ok_def handler_ok_defs)

lemma loop_ok_return:
  "handler_ok rc p p' \<Longrightarrow>
   (if rc = 0 then pos p < pos p' \<and> depth p' = depth p - 1 else depth p' = depth p) \<Longrightarrow>
   loop_ok rc p p'"
  by (auto simp: loop_ok_def depth_ok_def handler_ok_defs split: if_splits)

lemma loop_ok_value_failed:
  "handler_ok 0 p q \<Longrightarrow> depth q = depth p \<Longrightarrow> call_ok r q q1 \<Longrightarrow> r \<noteq> 0 \<Longrightarrow>
   loop_ok (- 1) p q1"
  by (auto simp: loop_ok_def call_ok_def depth_ok_def handler_ok_defs)

lemma call_ok_open_return:
  assumes "handler_ok rc p p'" "rc = 0 \<longrightarrow> pos p < pos p' \<and> depth p' = depth p"
    "depth p' = depth p \<or> depth p' = depth p + 1 \<and> \<not> max_depth p \<le> word_of_int (depth p)"
  shows "call_ok rc p p'"
proof -
  have "depth_ok p'" if "depth_ok p"
    using assms that depth_check_passed [of p]
    by (auto simp: depth_ok_def handler_ok_defs)
  with assms show ?thesis
    by (auto simp: call_ok_def)
qed

lemma call_ok_open_loop:
  assumes "handler_ok 0 p q" "pos p < pos q" "depth q = depth p + 1"
    "\<not> max_depth p \<le> word_of_int (depth p)" "loop_ok rc q p'"
  shows "call_ok rc p p'"
proof -
  have "depth_ok q" if "depth_ok p"
    using assms(1,3,4) that depth_check_passed [of p]
    by (auto simp: depth_ok_def handler_ok_defs)
  with assms show ?thesis
    by (auto simp: call_ok_def loop_ok_def depth_ok_def handler_ok_defs)
qed

lemma parse_ok:
  "(\<forall>p rc p'. json_parse_value n p = Some (rc, p') \<longrightarrow> call_ok rc p p')
   \<and> (\<forall>p rc p'. json_parse_object n p = Some (rc, p') \<longrightarrow> call_ok rc p p')
   \<and> (\<forall>t p rc p'. object_loop n t p = Some (rc, p') \<longrightarrow> loop_ok rc p p')
   \<and> (\<forall>p rc p'. json_parse_array n p = Some (rc, p') \<longrightarrow> call_ok rc p p')
   \<and> (\<forall>t p rc p'. array_loop n t p = Some (rc, p') \<longrightarrow> loop_ok rc p p')"
proof (induction n)
  case 0
  show ?case by simp
next
  case (Suc n)
  then have v: "\<And>p rc p'. json_parse_value n p = Some (rc, p') \<Longrightarrow> call_ok rc p p'"
    and ob: "\<And>p rc p'. json_parse_object n p = Some (rc, p') \<Longrightarrow> call_ok rc p p'"
    and ol: "\<And>t p rc p'. object_loop n t p = Some (rc, p') \<Longrightarrow> loop_ok rc p p'"
    and ar: "\<And>p rc p'. json_parse_array n p = Some (rc, p') \<Longrightarrow> call_ok rc p p'"
    and al: "\<And>t p rc p'. array_loop n t p = Some (rc, p') \<Longrightarrow> loop_ok rc p p'"
    by blast+
  have vcase: "call_ok rc p p'" if h: "json_parse_value (Suc n) p = Some (rc, p')" for p rc p'
  proof -
    let ?q = "json_skip_whitespace p"
    have q: "handler_ok 0 p ?q" "depth ?q = depth p" by simp_all
    from h have "(rc = - 1 \<and> p' = ?q)
        \<or> json_parse_object n ?q = Some (rc, p')
        \<or> json_parse_array n ?q = Some (rc, p')
        \<or> json_parse_scalar ?q = (rc, p')"
      by (simp add: Let_def split: if_splits)
    then show ?thesis
    proof (elim disjE conjE)
      assume "rc = - 1" "p' = ?q"
      then show ?thesis by (auto intro!: call_ok_leaf handler_ok_fail)
    next
      assume "json_parse_object n ?q = Some (rc, p')"
      from call_ok_pre [OF q ob [OF this]] show ?thesis .
    next
      assume "json_parse_array n ?q = Some (rc, p')"
      from call_ok_pre [OF q ar [OF this]] show ?thesis .
    next
      assume "json_parse_scalar ?q = (rc, p')"
      from call_ok_pre [OF q call_ok_leaf [OF handler_ok_parse_scalar [OF this]]] show ?thesis .
    qed
  qed
  have ocase: "call_ok rc p p'" if h: "json_parse_object (Suc n) p = Some (rc, p')" for p rc p'
  proof (cases "object_open p")
    case (Return r q)
    with h have "r = rc" "q = p'" by simp_all
    with object_open_Return [OF Return] show ?thesis
      by (intro call_ok_open_return) auto
  next
    case (Go_On x)
    obtain t q where x: "x = (t, q)" by (cases x)
    with h Go_On have "object_loop n t q = Some (rc, p')" by simp
    from ol [OF this] object_open_Go_On [OF Go_On [unfolded x]] show ?thesis
      by (intro call_ok_open_loop [of p q]) auto
  qed
  have acase: "call_ok rc p p'" if h: "json_parse_array (Suc n) p = Some (rc, p')" for p rc p'
  proof (cases "array_open p")
    case (Return r q)
    with h have "r = rc" "q = p'" by simp_all
    with array_open_Return [OF Return] show ?thesis
      by (intro call_ok_open_return) auto
  next
    case (Go_On x)
    obtain t q where x: "x = (t, q)" by (cases x)
    with h Go_On have "array_loop n t q = Some (rc, p')" by simp
    from al [OF this] array_open_Go_On [OF Go_On [unfolded x]] show ?thesis
      by (intro call_ok_open_loop [of p q]) auto
  qed
  have oloop: "loop_ok rc p p'" if h: "object_loop (Suc n) t p = Some (rc, p')" for t p rc p'
  proof (cases "object_member_key t p")
    case (Return r q)
    with h have "r = rc" "q = p'" by simp_all
    with object_member_key_Return [OF Return] show ?thesis
      by (intro loop_ok_return) auto
  next
    case (Go_On q)
    note k = object_member_key_Go_On [OF Go_On]
    from h Go_On obtain r1 q1 where v1: "json_parse_value n q = Some (r1, q1)"
      by (auto split: option.splits)
    note c1 = v [OF v1]
    show ?thesis
    proof (cases "r1 \<noteq> 0")
      case True
      with h Go_On v1 have "rc = - 1" "p' = q1" by simp_all
      with loop_ok_value_failed [OF _ _ c1 True] k show ?thesis by auto
    next
      case False
      then have r1: "r1 = 0" by simp
      from c1 k r1 have q1: "handler_ok 0 p q1" "depth q1 = depth p"
        by (auto simp: call_ok_def intro: handler_ok_trans)
      show ?thesis
      proof (cases "object_member_end q1")
        case (Return r q2)
        with h Go_On v1 r1 have "r = rc" "q2 = p'" by simp_all
        with object_member_end_Return [OF Return] have "loop_ok rc q1 p'"
          by (intro loop_ok_return) auto
        from loop_ok_pre [OF q1 this] show ?thesis .
      next
        case e: (Go_On q2)
        with h Go_On v1 r1 have "object_loop n t q2 = Some (rc, p')" by simp
        from ol [OF this] object_member_end_Go_On [OF e] have "loop_ok rc q1 p'"
          by (auto intro: loop_ok_pre)
        from loop_ok_pre [OF q1 this] show ?thesis .
      qed
    qed
  qed
  have aloop: "loop_ok rc p p'" if h: "array_loop (Suc n) t p = Some (rc, p')" for t p rc p'
  proof (cases "array_element_begin t p")
    case (Return r q)
    with h have "r = rc" "q = p'" by simp_all
    with array_element_begin_Return [OF Return] show ?thesis
      by (intro loop_ok_return) auto
  next
    case (Go_On q)
    note k = array_element_begin_Go_On [OF Go_On]
    from h Go_On obtain r1 q1 where v1: "json_parse_value n q = Some (r1, q1)"
      by (auto split: option.splits)
    note c1 = v [OF v1]
    show ?thesis
    proof (cases "r1 \<noteq> 0")
      case True
      with h Go_On v1 have "rc = - 1" "p' = q1" by simp_all
      with loop_ok_value_failed [OF _ _ c1 True] k show ?thesis by auto
    next
      case False
      then have r1: "r1 = 0" by simp
      from c1 k r1 have q1: "handler_ok 0 p q1" "depth q1 = depth p"
        by (auto simp: call_ok_def intro: handler_ok_trans)
      show ?thesis
      proof (cases "array_element_end q1")
        case (Return r q2)
        with h Go_On v1 r1 have "r = rc" "q2 = p'" by simp_all
        with array_element_end_Return [OF Return] have "loop_ok rc q1 p'"
          by (intro loop_ok_return) auto
        from loop_ok_pre [OF q1 this] show ?thesis .
      next
        case e: (Go_On q2)
        with h Go_On v1 r1 have "array_loop n t q2 = Some (rc, p')" by simp
        from al [OF this] array_element_end_Go_On [OF e] have "loop_ok rc q1 p'"
          by (auto intro: loop_ok_pre)
        from loop_ok_pre [OF q1 this] show ?thesis .
      qed
    qed
  qed
  from vcase ocase oloop acase aloop show ?case by blast
qed

lemma fuel_mono:
  "(\<forall>p r m. json_parse_value n p = Some r \<longrightarrow> n \<le> m \<longrightarrow> json_parse_value m p = Some r)
   \<and> (\<forall>p r m. json_parse_object n p = Some r \<longrightarrow> n \<le> m \<longrightarrow> json_parse_object m p = Some r)
   \<and> (\<forall>t p r m. object_loop n t p = Some r \<longrightarrow> n \<le> m \<longrightarrow> object_loop m t p = Some r)
   \<and> (\<forall>p r m. json_parse_array n p = Some r \<longrightarrow> n \<le> m \<longrightarrow> json_parse_array m p = Some r)
   \<and> (\<forall>t p r m. array_loop n t p = Some r \<longrightarrow> n \<le> m \<longrightarrow> array_loop m t p = Some r)"
proof (induction n)
  case 0
  show ?case by simp
next
  case (Suc n)
  then have v: "\<And>p r m. json_parse_value n p = Some r \<Longrightarrow> n \<le> m \<Longrightarrow> json_parse_value m p = Some r"
    and ob: "\<And>p r m. json_parse_object n p = Some r \<Longrightarrow> n \<le> m \<Longrightarrow> json_parse_object m p = Some r"
    and ol: "\<And>t p r m. object_loop n t p = Some r \<Longrightarrow> n \<le> m \<Longrightarrow> object_loop m t p = Some r"
    and ar: "\<And>p r m. json_parse_array n p = Some r \<Longrightarrow> n \<le> m \<Longrightarrow> json_parse_array m p = Some r"
    and al: "\<And>t p r m. array_loop n t p = Some r \<Longrightarrow> n \<le> m \<Longrightarrow> array_loop m t p = Some r"
    by blast+
  have vcase: "json_parse_value m p = Some r"
    if "json_parse_value (Suc n) p = Some r" "Suc n \<le> m" for p r m
  proof -
    from that(2) obtain k where m: "m = Suc k" "n \<le> k" by (cases m) auto
    from that(1) show ?thesis
      unfolding m by (auto simp: Let_def split: if_splits intro: ob ar m(2))
  qed
  have ocase: "json_parse_object m p = Some r"
    if "json_parse_object (Suc n) p = Some r" "Suc n \<le> m" for p r m
  proof -
    from that(2) obtain k where m: "m = Suc k" "n \<le> k" by (cases m) auto
    from that(1) show ?thesis
      unfolding m by (auto split: flow.splits intro: ol m(2))
  qed
  have acase: "json_parse_array m p = Some r"
    if "json_parse_array (Suc n) p = Some r" "Suc n \<le> m" for p r m
  proof -
    from that(2) obtain k where m: "m = Suc k" "n \<le> k" by (cases m) auto
    from that(1) show ?thesis
      unfolding m by (auto split: flow.splits intro: al m(2))
  qed
  have oloop: "object_loop m t p = Some r"
    if "object_loop (Suc n) t p = Some r" "Suc n \<le> m" for t p r m
  proof -
    from that(2) obtain k where m: "m = Suc k" "n \<le> k" by (cases m) auto
    show ?thesis
    proof (cases "object_member_key t p")
      case (Return rc q)
      with that(1) show ?thesis unfolding m by simp
    next
      case (Go_On q)
      with that(1) obtain r1 q1 where v1: "json_parse_value n q = Some (r1, q1)"
        by (auto split: option.splits)
      from v [OF v1 m(2)] have v2: "json_parse_value k q = Some (r1, q1)" .
      show ?thesis
      proof (cases "r1 \<noteq> 0")
        case True
        with that(1) Go_On v1 v2 show ?thesis unfolding m by simp
      next
        case False
        show ?thesis
        proof (cases "object_member_end q1")
          case (Return rc q2)
          with that(1) Go_On v1 v2 False show ?thesis unfolding m by simp
        next
          case e: (Go_On q2)
          with that(1) Go_On v1 False have "object_loop n t q2 = Some r" by simp
          from ol [OF this m(2)] Go_On v2 False e show ?thesis unfolding m by simp
        qed
      qed
    qed
  qed
  have aloop: "array_loop m t p = Some r"
    if "array_loop (Suc n) t p = Some r" "Suc n \<le> m" for t p r m
  proof -
    from that(2) obtain k where m: "m = Suc k" "n \<le> k" by (cases m) auto
    show ?thesis
    proof (cases "array_element_begin t p")
      case (Return rc q)
      with that(1) show ?thesis unfolding m by simp
    next
      case (Go_On q)
      with that(1) obtain r1 q1 where v1: "json_parse_value n q = Some (r1, q1)"
        by (auto split: option.splits)
      from v [OF v1 m(2)] have v2: "json_parse_value k q = Some (r1, q1)" .
      show ?thesis
      proof (cases "r1 \<noteq> 0")
        case True
        with that(1) Go_On v1 v2 show ?thesis unfolding m by simp
      next
        case False
        show ?thesis
        proof (cases "array_element_end q1")
          case (Return rc q2)
          with that(1) Go_On v1 v2 False show ?thesis unfolding m by simp
        next
          case e: (Go_On q2)
          with that(1) Go_On v1 False have "array_loop n t q2 = Some r" by simp
          from al [OF this m(2)] Go_On v2 False e show ?thesis unfolding m by simp
        qed
      qed
    qed
  qed
  from vcase ocase oloop acase aloop show ?case by blast
qed

lemma parse_ok_value: "json_parse_value n p = Some (rc, p') \<Longrightarrow> call_ok rc p p'"
  using parse_ok [of n] by blast

lemma enough_fuel:
  "(\<forall>p. 3 * (length_p p - pos p) + 1 \<le> n \<longrightarrow> json_parse_value n p \<noteq> None)
   \<and> (\<forall>p. pos p < length_p p \<and> 3 * (length_p p - pos p) \<le> n \<longrightarrow> json_parse_object n p \<noteq> None)
   \<and> (\<forall>t p. 3 * (length_p p - pos p) + 2 \<le> n \<longrightarrow> object_loop n t p \<noteq> None)
   \<and> (\<forall>p. pos p < length_p p \<and> 3 * (length_p p - pos p) \<le> n \<longrightarrow> json_parse_array n p \<noteq> None)
   \<and> (\<forall>t p. 3 * (length_p p - pos p) + 2 \<le> n \<longrightarrow> array_loop n t p \<noteq> None)"
proof (induction n)
  case 0
  show ?case by auto
next
  case (Suc n)
  then have v: "\<And>p. 3 * (length_p p - pos p) + 1 \<le> n \<Longrightarrow> json_parse_value n p \<noteq> None"
    and ob: "\<And>p. pos p < length_p p \<Longrightarrow> 3 * (length_p p - pos p) \<le> n \<Longrightarrow> json_parse_object n p \<noteq> None"
    and ol: "\<And>t p. 3 * (length_p p - pos p) + 2 \<le> n \<Longrightarrow> object_loop n t p \<noteq> None"
    and ar: "\<And>p. pos p < length_p p \<Longrightarrow> 3 * (length_p p - pos p) \<le> n \<Longrightarrow> json_parse_array n p \<noteq> None"
    and al: "\<And>t p. 3 * (length_p p - pos p) + 2 \<le> n \<Longrightarrow> array_loop n t p \<noteq> None"
    by blast+
  have vcase: "json_parse_value (Suc n) p \<noteq> None"
    if "3 * (length_p p - pos p) + 1 \<le> Suc n" for p
  proof -
    let ?q = "json_skip_whitespace p"
    have "3 * (length_p ?q - pos ?q) \<le> n" using that by simp
    then show ?thesis
      using ob [of ?q] ar [of ?q] by (auto simp: Let_def simp del: pos_json_skip_whitespace)
  qed
  have ocase: "json_parse_object (Suc n) p \<noteq> None"
    if "pos p < length_p p" "3 * (length_p p - pos p) \<le> Suc n" for p
  proof (cases "object_open p")
    case (Return rc q)
    then show ?thesis by simp
  next
    case (Go_On x)
    obtain t q where x: "x = (t, q)" by (cases x)
    from object_open_Go_On [OF Go_On [unfolded x]] that
    have "3 * (length_p q - pos q) + 2 \<le> n"
      by (auto simp: handler_ok_defs)
    from ol [OF this] Go_On x show ?thesis by simp
  qed
  have acase: "json_parse_array (Suc n) p \<noteq> None"
    if "pos p < length_p p" "3 * (length_p p - pos p) \<le> Suc n" for p
  proof (cases "array_open p")
    case (Return rc q)
    then show ?thesis by simp
  next
    case (Go_On x)
    obtain t q where x: "x = (t, q)" by (cases x)
    from array_open_Go_On [OF Go_On [unfolded x]] that
    have "3 * (length_p q - pos q) + 2 \<le> n"
      by (auto simp: handler_ok_defs)
    from al [OF this] Go_On x show ?thesis by simp
  qed
  have oloop: "object_loop (Suc n) t p \<noteq> None"
    if "3 * (length_p p - pos p) + 2 \<le> Suc n" for t p
  proof (cases "object_member_key t p")
    case (Return rc q)
    then show ?thesis by simp
  next
    case (Go_On q)
    note k = object_member_key_Go_On [OF Go_On]
    with that have "3 * (length_p q - pos q) + 1 \<le> n"
      by (auto simp: handler_ok_defs)
    from v [OF this] obtain r1 q1 where v1: "json_parse_value n q = Some (r1, q1)"
      by auto
    note c1 = parse_ok_value [OF v1]
    show ?thesis
    proof (cases "r1 \<noteq> 0")
      case True
      with Go_On v1 show ?thesis by simp
    next
      case False
      show ?thesis
      proof (cases "object_member_end q1")
        case (Return rc q2)
        with Go_On v1 False show ?thesis by simp
      next
        case e: (Go_On q2)
        from object_member_end_Go_On [OF e] c1 k False that
        have "3 * (length_p q2 - pos q2) + 2 \<le> n"
          by (auto simp: call_ok_def handler_ok_defs)
        from ol [OF this] Go_On v1 False e show ?thesis by simp
      qed
    qed
  qed
  have aloop: "array_loop (Suc n) t p \<noteq> None"
    if "3 * (length_p p - pos p) + 2 \<le> Suc n" for t p
  proof (cases "array_element_begin t p")
    case (Return rc q)
    then show ?thesis by simp
  next
    case (Go_On q)
    note k = array_element_begin_Go_On [OF Go_On]
    with that have "3 * (length_p q - pos q) + 1 \<le> n"
      by (auto simp: handler_ok_defs)
    from v [OF this] obtain r1 q1 where v1: "json_parse_value n q = Some (r1, q1)"
      by auto
    note c1 = parse_ok_value [OF v1]
    show ?thesis
    proof (cases "r1 \<noteq> 0")
      case True
      with Go_On v1 show ?thesis by simp
    next
      case False
      show ?thesis
      proof (cases "array_element_end q1")
        case (Return rc q2)
        with Go_On v1 False show ?thesis by simp
      next
        case e: (Go_On q2)
        from array_element_end_Go_On [OF e] c1 k False that
        have "3 * (length_p q2 - pos q2) + 2 \<le> n"
          by (auto simp: call_ok_def handler_ok_defs)
        from al [OF this] Go_On v1 False e show ?thesis by simp
      qed
    qed
  qed
  from vcase ocase oloop acase aloop show ?case by blast
qed

lemma json_parse_value_terminates:
  "parse_fuel p \<le> n \<Longrightarrow> \<exists>rc p'. json_parse_value n p = Some (rc, p')"
  using enough_fuel [of n] by (auto simp: parse_fuel_def)

lemma json_at_update [simp]:
  "json_at (p\<lparr>pos := x\<rparr>) i = json_at p i"
  "json_at (p\<lparr>error := e\<rparr>) i = json_at p i"
  "json_at (p\<lparr>depth := d\<rparr>) i = json_at p i"
  "json_at (p\<lparr>max_depth := m\<rparr>) i = json_at p i"
  "json_at (p\<lparr>max_string := m\<rparr>) i = json_at p i"
  "json_at (p\<lparr>error_writes := ws\<rparr>) i = json_at p i"
  by (simp_all add: json_at_def)

lemma json_skip_whitespace_all_space:
  "\<forall>i. pos p \<le> i \<and> i < length_p p \<longrightarrow> isspace (json_at p i) \<Longrightarrow>
     length_p p \<le> pos (json_skip_whitespace p)"
proof (induction p rule: json_skip_whitespace.induct)
  case (1 p)
  show ?case
  proof (cases "pos p < length_p p")
    case True
    with "1.prems" have sp: "isspace (json_at p (pos p))" by simp
    have "\<forall>i. pos (p\<lparr>pos := pos p + 1\<rparr>) \<le> i \<and> i < length_p (p\<lparr>pos := pos p + 1\<rparr>)
            \<longrightarrow> isspace (json_at (p\<lparr>pos := pos p + 1\<rparr>) i)"
      using "1.prems" by simp
    from "1.IH" [OF _ this] True sp
    have "length_p p \<le> pos (json_skip_whitespace (p\<lparr>pos := pos p + 1\<rparr>))"
      by (simp del: pos_json_skip_whitespace)
    with True sp show ?thesis
      by (subst json_skip_whitespace.simps) (simp del: pos_json_skip_whitespace)
  next
    case False
    then show ?thesis by simp
  qed
qed

subsection \<open>Strings of ordinary bytes\<close>

lemma json_skip_whitespace_no_space:
  "\<not> (pos p < length_p p \<and> isspace (json_at p (pos p))) \<Longrightarrow> json_skip_whitespace p = p"
  by (subst json_skip_whitespace.simps) auto




lemma not_isspace_quote [simp]: "\<not> isspace (CHR 0x22)"
  by (simp add: isspace_def byte_def)

text \<open>A document that starts with a double quote is handed to the string loop.\<close>

lemma parse_quoted_document:
  fixes env m js
  defines "p0 \<equiv> (json_parser_init env (CHR 0x22 # js) (Suc (length js)))\<lparr>max_string := m\<rparr>"
  defines "ps \<equiv> p0\<lparr>tokens := [\<lparr>tok_type = JSON_TOKEN_STRING, tok_value = Value_Zero,
                                  tok_start = 1, tok_end = 0\<rparr>],
                      heap_calls := 1, pos := 1, error_writes := [JSON_ERROR_NONE]\<rparr>"
  assumes "env 0 \<noteq> Alloc_Fails"
  shows "json_parser_parse p0 =
     (case string_loop (Suc 0, 0) ps [] of (rc, p) \<Rightarrow>
        if rc < 0 then Some p
        else (let p = json_skip_whitespace p
              in if pos p \<noteq> length_p p then Some (json_set_error p JSON_ERROR_TRAILING_CHARS)
                 else Some p))"
proof -
  define pe where "pe = p0\<lparr>error_writes := [JSON_ERROR_NONE]\<rparr>"
  have at0: "json_at pe 0 = CHR 0x22"
    by (simp add: pe_def p0_def json_parser_init_def json_at_def)
  have f: "error pe = JSON_ERROR_NONE" "pos pe = 0" "length_p pe = Suc (length js)"
    by (simp_all add: pe_def p0_def json_parser_init_def)
  have e: "p0\<lparr>error := JSON_ERROR_NONE, error_writes := error_writes p0 @ [JSON_ERROR_NONE]\<rparr> = pe"
    by (simp add: pe_def p0_def json_parser_init_def)
  have sk: "json_skip_whitespace pe = pe"
    by (rule json_skip_whitespace_no_space) (simp add: at0 f)
  have fuel: "parse_fuel pe = Suc (3 * length js + 5)" by (simp add: parse_fuel_def f)
  have str: "json_parse_string pe = string_loop (Suc 0, 0) ps []"
    using assms(3)
    by (simp add: json_parse_string_def json_add_token_def token_count_def pe_def p0_def ps_def
        json_parser_init_def JSON_DEFAULT_MAX_TOKENS_def last_token_ptr_def token_store_def
        new_token_def Let_def)
  have "json_parse_scalar pe = string_loop (Suc 0, 0) ps []"
    by (simp add: json_parse_scalar_def at0 f str)
  then have "json_parse_value (parse_fuel pe) pe = Some (string_loop (Suc 0, 0) ps [])"
    by (subst fuel, subst json_parse_value.simps(2))
      (simp add: sk at0 f del: pos_json_skip_whitespace)
  then show ?thesis
    by (simp add: json_parser_parse_def e sk f split: prod.splits del: pos_json_skip_whitespace)
qed





lemma parse_quoted_text:
  assumes "env 0 \<noteq> Alloc_Fails"
  shows "parse_text env (CHR 0x22 # js) =
     (case string_loop (Suc 0, 0)
             ((json_parser_init env (CHR 0x22 # js) (Suc (length js)))
                \<lparr>tokens := [\<lparr>tok_type = JSON_TOKEN_STRING, tok_value = Value_Zero,
                               tok_start = 1, tok_end = 0\<rparr>],
                 heap_calls := 1, pos := 1, error_writes := [JSON_ERROR_NONE]\<rparr>) [] of
        (rc, p) \<Rightarrow>
          if rc < 0 then Some p
          else (let p = json_skip_whitespace p
                in if pos p \<noteq> length_p p then Some (json_set_error p JSON_ERROR_TRAILING_CHARS)
                   else Some p))"
proof -
  have "(json_parser_init env (CHR 0x22 # js) (Suc (length js)))\<lparr>max_string := 256\<rparr>
      = json_parser_init env (CHR 0x22 # js) (Suc (length js))"
    by (simp add: json_parser_init_def JSON_DEFAULT_MAX_STRING_def)
  with parse_quoted_document [of env 256 js] assms show ?thesis
    by (simp add: parse_text_def)
qed





subsection \<open>Nested arrays and the depth limit\<close>


lemma not_isspace_brackets [simp]: "\<not> isspace (CHR ''['')" "\<not> isspace (CHR '']'')"
  by (simp_all add: isspace_def byte_def)



lemma depth_check_word:
  assumes "k < unat (m :: 64 word)"
  shows "\<not> m \<le> of_nat k"
proof -
  have "unat m < 2 ^ 64" using unsigned_less [of m, where 'a = nat] by simp
  with assms have "unat (of_nat k :: 64 word) = k"
    by (simp add: unat_of_nat take_bit_nat_eq_self)
  with assms show ?thesis
    by (simp add: word_le_nat_alt)
qed










lemma length_nested [simp]: "length (nested a) = 2 * a"
  by (simp add: nested_def)





subsection \<open>An array that outgrows the token array\<close>

lemma nth_concat_replicate:
  "i < k \<Longrightarrow> j < length xs \<Longrightarrow> concat (replicate k xs) ! (i * length xs + j) = xs ! j"
proof (induction k arbitrary: i)
  case 0
  then show ?case by simp
next
  case (Suc k)
  show ?case
  proof (cases i)
    case 0
    with Suc.prems show ?thesis by (simp add: nth_append)
  next
    case (Suc i')
    with Suc.prems Suc.IH [of i'] show ?thesis
      by (simp add: nth_append add.assoc)
  qed
qed

lemma length_empties [simp]: "length (empties k) = 3 * k + 4"
  by (simp add: empties_def length_concat sum_list_replicate)

lemma json_at_empties:
  assumes "json p = empties k"
  shows "json_at p 0 = CHR ''[''"
    and "i \<le> k \<Longrightarrow> json_at p (3 * i + 1) = CHR ''[''"
    and "i \<le> k \<Longrightarrow> json_at p (3 * i + 2) = CHR '']''"
    and "i < k \<Longrightarrow> json_at p (3 * i + 3) = CHR '',''"
    and "json_at p (3 * k + 3) = CHR '']''"
proof -
  have len: "length (concat (replicate k ''[],'')) = 3 * k"
    by (simp add: length_concat sum_list_replicate)
  have body: "concat (replicate k ''[],'') ! (3 * i + j) = ''[],'' ! j" if "i < k" "j < 3" for i j
  proof -
    have l: "length ''[],'' = 3" by simp
    from that have "j < length ''[],''" by simp
    from nth_concat_replicate [OF that(1) this] show ?thesis
      unfolding l by (simp only: mult.commute)
  qed
  show "json_at p 0 = CHR ''[''" using assms by (simp add: json_at_def empties_def)
  show "json_at p (3 * k + 3) = CHR '']''"
    using assms len by (simp add: json_at_def empties_def nth_append)
  show "json_at p (3 * i + 3) = CHR '',''" if "i < k"
    using assms len that body [of i 2] by (simp add: json_at_def empties_def nth_append)
  show "json_at p (3 * i + 1) = CHR ''[''" if "i \<le> k"
  proof (cases "i < k")
    case True
    with assms len body [of i 0] show ?thesis
      by (simp add: json_at_def empties_def nth_append)
  next
    case False
    with that have "i = k" by simp
    with assms len show ?thesis by (simp add: json_at_def empties_def nth_append)
  qed
  show "json_at p (3 * i + 2) = CHR '']''" if "i \<le> k"
  proof (cases "i < k")
    case True
    with assms len body [of i 1] show ?thesis
      by (simp add: json_at_def empties_def nth_append)
  next
    case False
    with that have "i = k" by simp
    with assms len show ?thesis by (simp add: json_at_def empties_def nth_append)
  qed
qed

lemma json_add_token_grows:
  assumes "heap p (heap_calls p) \<noteq> Alloc_Fails"
  shows "\<exists>p1. json_add_token p ty = (0, p1) \<and> handler_ok 0 p p1 \<and> pos p1 = pos p
            \<and> depth p1 = depth p \<and> error p1 = error p
            \<and> tokens p1 = tokens p @ [new_token ty (pos p)] \<and> grown p p1"
  using assms
  by (auto simp: json_add_token_def Let_def handler_ok_defs grown_def token_count_def)


lemma array_open_grows:
  assumes heap: "heap p (heap_calls p) \<noteq> Alloc_Fails"
    and chk: "\<not> max_depth p \<le> word_of_int (depth p)"
    and ns: "\<not> isspace (json_at p (pos p + 1))"
  shows "\<exists>q. handler_ok 0 p q \<and> pos q = pos p + 1 \<and> depth q = depth p + 1
          \<and> error q = error p
          \<and> tokens q = tokens p @ [\<lparr>tok_type = JSON_TOKEN_ARRAY, tok_value = Value_Zero,
                                     tok_start = pos p, tok_end = 0\<rparr>]
          \<and> grown p q
          \<and> array_open p
              = (if json_at p (pos p + 1) = CHR '']''
                 then Return 0 (close_container (tokens_addr q, length (tokens p)) q)
                 else Go_On ((tokens_addr q, length (tokens p)), q))"
proof -
  let ?p0 = "p\<lparr>depth := depth p + 1\<rparr>"
  from heap have "heap ?p0 (heap_calls ?p0) \<noteq> Alloc_Fails" by simp
  from json_add_token_grows [OF this] obtain p1 where
    add: "json_add_token ?p0 JSON_TOKEN_ARRAY = (0, p1)" and ok1: "handler_ok 0 ?p0 p1"
    and p1: "pos p1 = pos p" "depth p1 = depth p + 1" "error p1 = error p"
      "tokens p1 = tokens p @ [new_token JSON_TOKEN_ARRAY (pos p)]"
    and g1: "grown ?p0 p1"
    by auto
  define t where "t = last_token_ptr p1"
  define q where "q = (token_store t (\<lambda>t. t\<lparr>tok_start := pos p, tok_end := 0\<rparr>) p1)\<lparr>pos := pos p1 + 1\<rparr>"
  have t: "t = (tokens_addr q, length (tokens p))"
    by (simp add: t_def q_def last_token_ptr_def token_count_def p1)
  have q: "handler_ok 0 p q" "pos q = pos p + 1" "depth q = depth p + 1" "error q = error p"
    using ok1 p1 by (auto simp: q_def handler_ok_defs)
  have tk: "tokens q = tokens p @ [\<lparr>tok_type = JSON_TOKEN_ARRAY, tok_value = Value_Zero,
                                     tok_start = pos p, tok_end = 0\<rparr>]"
    by (simp add: q_def t_def token_store_def last_token_ptr_def token_count_def p1 new_token_def)
  from g1 have g: "grown p q" by (simp add: grown_def q_def)
  from q(1) have at: "json_at q i = json_at p i" for i
    by (simp add: json_at_def handler_ok_defs)
  from ns have sk: "json_skip_whitespace q = q"
    by (intro json_skip_whitespace_no_space) (simp add: at q)
  have "array_open p =
      (if json_at (json_skip_whitespace q) (pos (json_skip_whitespace q)) = CHR '']''
       then Return 0 (close_container t (json_skip_whitespace q))
       else Go_On (t, json_skip_whitespace q))"
    unfolding q_def t_def using chk add
    by (simp add: array_open_def Let_def p1 del: pos_json_skip_whitespace)
  then have "array_open p
              = (if json_at p (pos p + 1) = CHR '']''
                 then Return 0 (close_container (tokens_addr q, length (tokens p)) q)
                 else Go_On ((tokens_addr q, length (tokens p)), q))"
    unfolding sk t by (simp add: at q)
  with q tk g show ?thesis by blast
qed

lemma close_container_last:
  "tokens q = ts @ [x] \<Longrightarrow>
     tokens (close_container (tokens_addr q, length ts) q) = ts @ [x\<lparr>tok_end := pos q + 1\<rparr>]"
  by (simp add: close_container_def token_store_def Let_def)

lemma close_container_first:
  "tokens (close_container (a, 0) q) ! 0
     = (if a = tokens_addr q \<and> tokens q \<noteq> [] then (tokens q ! 0)\<lparr>tok_end := pos q + 1\<rparr>
        else tokens q ! 0)"
  by (simp add: close_container_def token_store_def Let_def)

lemma in_empties_later: "handler_ok rc p q \<Longrightarrow> in_empties k p \<Longrightarrow> in_empties k q"
  by (simp add: in_empties_def handler_ok_defs)

lemma not_isspace_comma [simp]: "\<not> isspace (CHR '','')"
  by (simp add: isspace_def byte_def)

text \<open>One element \<open>[]\<close> of \<open>empties k\<close>, the \<open>i\<close>-th.\<close>

lemma empties_element:
  assumes inn: "in_empties k p" and at: "pos p = 3 * i + 1" "i \<le> k" and d: "depth p = 1"
    and v: "json_parse_value n p = Some (rc, q)"
  shows "rc = 0 \<and> handler_ok 0 p q \<and> pos q = 3 * i + 3 \<and> depth q = 1 \<and> error q = error p
         \<and> tokens q = tokens p @ [\<lparr>tok_type = JSON_TOKEN_ARRAY, tok_value = Value_Zero,
                                    tok_start = 3 * i + 1, tok_end = 3 * i + 3\<rparr>]
         \<and> grown p q"
proof -
  from inn have js: "json p = empties k" by (simp add: in_empties_def)
  from json_at_empties(2) [OF js at(2)] at have c0: "json_at p (pos p) = CHR ''[''" by simp
  from json_at_empties(3) [OF js at(2)] at have c1: "json_at p (pos p + 1) = CHR '']''" by simp
  from c0 have sk: "json_skip_whitespace p = p"
    by (intro json_skip_whitespace_no_space) simp
  from inn at have lt: "pos p < length_p p" by (simp add: in_empties_def)
  from v obtain n1 where n: "n = Suc n1" by (cases n) auto
  with v c0 lt have arr: "json_parse_array n1 p = Some (rc, q)"
    by (simp add: sk del: pos_json_skip_whitespace)
  then obtain n2 where n1: "n1 = Suc n2" by (cases n1) auto
  from inn have "heap p (heap_calls p) \<noteq> Alloc_Fails" by (simp add: in_empties_def)
  moreover from inn d have "\<not> max_depth p \<le> word_of_int (depth p)"
    using depth_check_word [of 1 "max_depth p"] by (simp add: in_empties_def)
  moreover from c1 have "\<not> isspace (json_at p (pos p + 1))" by simp
  ultimately obtain r where
    r: "handler_ok 0 p r" "pos r = pos p + 1" "depth r = depth p + 1" "error r = error p"
      "tokens r = tokens p @ [\<lparr>tok_type = JSON_TOKEN_ARRAY, tok_value = Value_Zero,
                                     tok_start = pos p, tok_end = 0\<rparr>]"
      "grown p r"
    and op: "array_open p = Return 0 (close_container (tokens_addr r, length (tokens p)) r)"
    using array_open_grows [of p] c1 by auto
  from arr n1 op have rc: "rc = 0" and q: "q = close_container (tokens_addr r, length (tokens p)) r"
    by simp_all
  from r(1) have "handler_ok 0 p q"
    by (simp add: q handler_ok_defs)
  moreover from r(6) have "grown p q" by (simp add: q grown_def)
  moreover have "tokens q = tokens p @ [\<lparr>tok_type = JSON_TOKEN_ARRAY, tok_value = Value_Zero,
                                    tok_start = 3 * i + 1, tok_end = 3 * i + 3\<rparr>]"
    unfolding q using close_container_last [OF r(5)] r(2) at by simp
  ultimately show ?thesis using rc r at d by (simp add: q)
qed


text \<open>
  The loop of the outer array, entered before element \<open>i\<close> with the pointer \<open>(a, 0)\<close> to
  the outer array's token.
\<close>

lemma empties_loop:
  "in_empties k p \<Longrightarrow> pos p = 3 * i + 1 \<Longrightarrow> i \<le> k \<Longrightarrow> depth p = 1 \<Longrightarrow> tokens p \<noteq> [] \<Longrightarrow>
   array_loop n (a, 0) p = Some (rc, p') \<Longrightarrow>
   rc = 0 \<and> pos p' = 3 * k + 4 \<and> length_p p' = 3 * k + 4 \<and> error p' = error p
   \<and> length (tokens p') = length (tokens p) + (k + 1 - i)
   \<and> tokens p' ! 0
       = (if a = tokens_addr p' then (tokens p ! 0)\<lparr>tok_end := 3 * k + 4\<rparr> else tokens p ! 0)
   \<and> tokens_addr p \<le> tokens_addr p'
   \<and> (length (tokens p) \<le> token_cap p \<and> token_cap p < length (tokens p) + (k + 1 - i)
        \<and> heap p (heap_calls p) = Alloc_Moves \<longrightarrow> tokens_addr p < tokens_addr p')
   \<and> ((\<forall>j. heap p j \<noteq> Alloc_Moves) \<longrightarrow> tokens_addr p' = tokens_addr p)"
proof (induction n arbitrary: p i rule: less_induct)
  case (less n)
  note inn = less.prems(1) and at = less.prems(2) and ik = less.prems(3) and d = less.prems(4)
    and ne = less.prems(5) and lp = less.prems(6)
  from inn have js: "json p = empties k" and len: "length_p p = 3 * k + 4"
    by (simp_all add: in_empties_def)
  from lp obtain n1 where n: "n = Suc n1" by (cases n) auto
  from json_at_empties(2) [OF js ik] at have c0: "json_at p (pos p) = CHR ''[''" by simp
  then have sk: "json_skip_whitespace p = p"
    by (intro json_skip_whitespace_no_space) simp
  from at ik len have lt: "pos p < length_p p" by simp
  with c0 have b: "array_element_begin (a, 0) p = Go_On p"
    by (simp add: array_element_begin_def sk del: pos_json_skip_whitespace)
  with lp n obtain r1 q where v: "json_parse_value n1 p = Some (r1, q)"
    by (auto split: option.splits)
  from empties_element [OF inn at ik d v] have r1: "r1 = 0" and hq: "handler_ok 0 p q"
    and q: "pos q = 3 * i + 3" "depth q = 1" "error q = error p"
    and tq: "tokens q = tokens p @ [\<lparr>tok_type = JSON_TOKEN_ARRAY, tok_value = Value_Zero,
                                    tok_start = 3 * i + 1, tok_end = 3 * i + 3\<rparr>]"
    and g: "grown p q"
    by simp_all
  from in_empties_later [OF hq inn] have innq: "in_empties k q" .
  then have jq: "json q = empties k" and lenq: "length_p q = 3 * k + 4"
    by (simp_all add: in_empties_def)
  from hq have hp: "heap q = heap p" by (simp add: handler_ok_defs)
  from tq ne have t0: "tokens q ! 0 = tokens p ! 0" "tokens q \<noteq> []"
    "length (tokens q) = length (tokens p) + 1"
    by (simp_all add: nth_append)
  from g have mono: "tokens_addr p \<le> tokens_addr q" by (simp add: grown_def split: if_splits)
  from g have still: "(\<forall>j. heap p j \<noteq> Alloc_Moves) \<longrightarrow> tokens_addr q = tokens_addr p"
    by (simp add: grown_def split: if_splits)
  show ?case
  proof (cases "i < k")
    case True
    from json_at_empties(4) [OF jq True] q have c: "json_at q (pos q) = CHR '',''" by simp
    then have skq: "json_skip_whitespace q = q"
      by (intro json_skip_whitespace_no_space) simp
    define q' where "q' = q\<lparr>pos := Suc (pos q)\<rparr>"
    from True have ik': "Suc i \<le> k" by simp
    have pq': "pos q' = 3 * Suc i + 1" by (simp add: q'_def q)
    from json_at_empties(2) [OF jq ik'] have c': "json_at q' (pos q') = CHR ''[''"
      by (simp add: q'_def q)
    then have skq': "json_skip_whitespace q' = q'"
      by (intro json_skip_whitespace_no_space) simp
    from c c' have e: "array_element_end q = Go_On q'"
      by (simp add: array_element_end_def skq Let_def q'_def [symmetric] skq'
          del: pos_json_skip_whitespace)
    with lp n b v r1 have lp': "array_loop n1 (a, 0) q' = Some (rc, p')" by simp
    from innq have inn': "in_empties k q'" by (simp add: q'_def in_empties_def)
    have f: "depth q' = 1" "tokens q' = tokens q" "error q' = error q"
      "tokens_addr q' = tokens_addr q" "token_cap q' = token_cap q" "heap q' = heap p"
      "heap_calls q' = heap_calls q"
      by (simp_all add: q'_def q hp)
    have "n1 < n" by (simp add: n)
    from less.IH [OF this inn' pq' ik' f(1) _ lp'] t0 f
    have ih: "rc = 0" "pos p' = 3 * k + 4" "length_p p' = 3 * k + 4" "error p' = error q"
      "length (tokens p') = length (tokens q) + (k + 1 - Suc i)"
      "tokens p' ! 0
         = (if a = tokens_addr p' then (tokens q ! 0)\<lparr>tok_end := 3 * k + 4\<rparr> else tokens q ! 0)"
      "tokens_addr q \<le> tokens_addr p'"
      "length (tokens q) \<le> token_cap q \<and> token_cap q < length (tokens q) + (k + 1 - Suc i)
        \<and> heap p (heap_calls q) = Alloc_Moves \<longrightarrow> tokens_addr q < tokens_addr p'"
      "(\<forall>j. heap p j \<noteq> Alloc_Moves) \<longrightarrow> tokens_addr p' = tokens_addr q"
      by simp_all
    have moves: "tokens_addr p < tokens_addr p'"
      if m: "length (tokens p) \<le> token_cap p" "token_cap p < length (tokens p) + (k + 1 - i)"
        "heap p (heap_calls p) = Alloc_Moves"
    proof (cases "token_cap p \<le> length (tokens p)")
      case True
      with g m have "tokens_addr q = tokens_addr p + 1" by (simp add: grown_def)
      with ih(7) show ?thesis by simp
    next
      case False
      with g have "tokens_addr q = tokens_addr p" "token_cap q = token_cap p"
        "heap_calls q = heap_calls p" by (simp_all add: grown_def)
      with ih(8) m False t0(3) True show ?thesis by simp
    qed
    from ih t0 q True mono still moves show ?thesis by auto
  next
    case False
    with ik have ik: "i = k" by simp
    from json_at_empties(5) [OF jq] q ik have c: "json_at q (pos q) = CHR '']''" by simp
    then have skq: "json_skip_whitespace q = q"
      by (intro json_skip_whitespace_no_space) simp
    from c have e: "array_element_end q = Go_On q"
      by (simp add: array_element_end_def skq del: pos_json_skip_whitespace)
    with lp n b v r1 have lp': "array_loop n1 (a, 0) q = Some (rc, p')" by simp
    then obtain n2 where n1: "n1 = Suc n2" by (cases n1) auto
    from q ik lenq have "pos q < length_p q" by simp
    with c have "array_element_begin (a, 0) q = Return 0 (close_container (a, 0) q)"
      by (simp add: array_element_begin_def skq del: pos_json_skip_whitespace)
    with lp' n1 have rc: "rc = 0" and p': "p' = close_container (a, 0) q" by simp_all
    have moves: "tokens_addr p < tokens_addr q"
      if m: "length (tokens p) \<le> token_cap p" "token_cap p < length (tokens p) + (k + 1 - i)"
        "heap p (heap_calls p) = Alloc_Moves"
      using g m ik by (simp add: grown_def)
    from rc q ik lenq t0 mono still moves show ?thesis
      by (simp add: p' close_container_first)
  qed
qed

lemma parse_empties:
  assumes env: "\<forall>i. env i \<noteq> Alloc_Fails"
  shows "\<exists>p'. parse_text env (empties k) = Some p' \<and> error p' = JSON_ERROR_NONE
          \<and> length (tokens p') = k + 2
          \<and> tokens p' ! 0
              = \<lparr>tok_type = JSON_TOKEN_ARRAY, tok_value = Value_Zero, tok_start = 0,
                 tok_end = (if tokens_addr p' = 1 then 3 * k + 4 else 0)\<rparr>
          \<and> (JSON_DEFAULT_MAX_TOKENS \<le> k + 1 \<and> env 0 = Alloc_Moves \<longrightarrow> tokens_addr p' \<noteq> 1)
          \<and> ((\<forall>j. env j \<noteq> Alloc_Moves) \<longrightarrow> tokens_addr p' = 1)"
proof -
  define pi where "pi = json_parser_init env (empties k) (length (empties k))"
  define p0 where "p0 = pi\<lparr>error_writes := [JSON_ERROR_NONE]\<rparr>"
  have f: "pos p0 = 0" "length_p p0 = 3 * k + 4" "json p0 = empties k"
    "error p0 = JSON_ERROR_NONE" "depth p0 = 0" "max_depth p0 = 32" "heap p0 = env"
    "tokens p0 = []" "tokens_addr p0 = 1" "token_cap p0 = JSON_DEFAULT_MAX_TOKENS"
    "heap_calls p0 = 0"
    by (simp_all add: p0_def pi_def json_parser_init_def JSON_DEFAULT_MAX_DEPTH_def)
  have e: "pi\<lparr>error := JSON_ERROR_NONE, error_writes := error_writes pi @ [JSON_ERROR_NONE]\<rparr> = p0"
    by (simp add: p0_def pi_def json_parser_init_def)
  from env have inn: "in_empties k p0" by (simp add: in_empties_def f)
  from json_at_empties(1) [OF f(3)] have c0: "json_at p0 (pos p0) = CHR ''[''" by (simp add: f)
  from json_at_empties(2) [OF f(3), of 0] have c1: "json_at p0 (pos p0 + 1) = CHR ''[''"
    by (simp add: f)
  from c0 have sk: "json_skip_whitespace p0 = p0"
    by (intro json_skip_whitespace_no_space) simp
  from json_parse_value_terminates [of p0 "parse_fuel p0"] obtain rc p2 where
    v: "json_parse_value (parse_fuel p0) p0 = Some (rc, p2)" by auto
  then obtain n1 where n: "parse_fuel p0 = Suc n1" by (cases "parse_fuel p0") auto
  with v c0 have arr: "json_parse_array n1 p0 = Some (rc, p2)"
    by (simp add: sk f del: pos_json_skip_whitespace)
  then obtain n2 where n1: "n1 = Suc n2" by (cases n1) auto
  from env have "heap p0 (heap_calls p0) \<noteq> Alloc_Fails" by (simp add: f)
  moreover have "\<not> max_depth p0 \<le> word_of_int (depth p0)" by (simp add: f)
  moreover from c1 have "\<not> isspace (json_at p0 (pos p0 + 1))" by simp
  ultimately obtain q where
    q: "handler_ok 0 p0 q" "pos q = 1" "depth q = 1" "error q = JSON_ERROR_NONE"
      "tokens q = [\<lparr>tok_type = JSON_TOKEN_ARRAY, tok_value = Value_Zero,
                                     tok_start = 0, tok_end = 0\<rparr>]"
      "grown p0 q"
    and op: "array_open p0 = Go_On ((tokens_addr q, 0), q)"
    using array_open_grows [of p0] c1 by (auto simp: f)
  from q(6) have g: "tokens_addr q = 1" "token_cap q = JSON_DEFAULT_MAX_TOKENS" "heap_calls q = 0"
    by (simp_all add: grown_def f JSON_DEFAULT_MAX_TOKENS_def)
  from q(1) have hq: "heap q = env" by (simp add: handler_ok_defs f)
  from arr n1 op g have lp: "array_loop n2 (1, 0) q = Some (rc, p2)" by simp
  from in_empties_later [OF q(1) inn] have innq: "in_empties k q" .
  from empties_loop [OF innq _ _ q(3) _ lp, of 0] q g hq
  have r: "rc = 0" "pos p2 = 3 * k + 4" "length_p p2 = 3 * k + 4" "error p2 = JSON_ERROR_NONE"
    "length (tokens p2) = k + 2"
    "tokens p2 ! 0
       = \<lparr>tok_type = JSON_TOKEN_ARRAY, tok_value = Value_Zero, tok_start = 0,
          tok_end = (if tokens_addr p2 = 1 then 3 * k + 4 else 0)\<rparr>"
    "JSON_DEFAULT_MAX_TOKENS \<le> k + 1 \<and> env 0 = Alloc_Moves \<longrightarrow> tokens_addr p2 \<noteq> 1"
    "(\<forall>j. env j \<noteq> Alloc_Moves) \<longrightarrow> tokens_addr p2 = 1"
    by (auto simp: JSON_DEFAULT_MAX_TOKENS_def)
  from r have sk2: "json_skip_whitespace p2 = p2"
    by (intro json_skip_whitespace_no_space) simp
  from v r have "json_parser_parse pi = Some p2"
    by (simp add: json_parser_parse_def e sk sk2 f del: pos_json_skip_whitespace)
  with r show ?thesis unfolding parse_text_def pi_def by blast
qed

section \<open>Claims\<close>

text \<open>
  C1. The claim: \<open>json_parser_parse\<close> returns \<open>JSON_ERROR_NONE\<close> exactly for well-formed
  input, and every failing parse returns another code; in particular the malformed literal
  \<open>tru\<close> and a value missing after \<open>:\<close> do. The code does not do this.
  \<open>json_parse_literal\<close> returns \<open>-1\<close> without calling \<open>json_set_error\<close>, and so does
  \<open>json_parse_value\<close> at the end of the input; \<open>json_parser_parse\<close> then returns the
  untouched \<open>parser->error\<close>. On \<open>tru\<close> the value parser fails (\<open>-1\<close>), no token is
  produced, and the returned code is \<open>JSON_ERROR_NONE\<close>; on \<open>{"a":\<close> likewise.
\<close>

theorem truncated_literal_reports_no_error:
  \<open>map_option fst (json_parse_value 12 (json_parser_init env ''tru'' 3)) = Some (- 1)
   \<and> map_option (\<lambda>p. (error p, tokens p)) (parse_text env ''tru'') = Some (JSON_ERROR_NONE, [])
   \<and> map_option error (parse_text heap_ok ''{"a":'') = Some JSON_ERROR_NONE\<close>
  by code_simp

text \<open>
  C2. The claim: after a comma, a closing delimiter is rejected with
  \<open>JSON_ERROR_UNEXPECTED_CHAR\<close> in arrays and in objects. \<open>json_parse_array\<close> has this
  check; \<open>json_parse_object\<close> does not: after the comma its loop starts the next iteration,
  whose first test accepts \<open>}\<close>. So \<open>{"a":1,}\<close> parses without error, while \<open>[1,]\<close>
  is rejected.
\<close>

theorem object_trailing_comma_accepted:
  \<open>map_option error (parse_text heap_ok ''{"a":1,}'') = Some JSON_ERROR_NONE
   \<and> map_option error (parse_text env ''[1,]'') = Some JSON_ERROR_UNEXPECTED_CHAR\<close>
  by code_simp

text \<open>
  C3. The claim: during \<open>json_parser_parse\<close> the cursor never decreases and stays at most
  \<open>length\<close>, except at the final trailing-character check. \<open>json_parse_object\<close> tests
  \<open>parser->json[parser->pos++] != ':'\<close> (and the same for \<open>','\<close>) without comparing
  \<open>pos\<close> with \<open>length\<close>: at the end of the input it reads the byte after the buffer and
  moves the cursor past it. On the four bytes \<open>{"a"\<close> the parse returns
  \<open>JSON_ERROR_UNEXPECTED_CHAR\<close> from inside \<open>json_parse_value\<close>, before the trailing
  check, with \<open>pos = 5\<close>.
\<close>

theorem cursor_past_end_of_input:
  \<open>map_option (\<lambda>p. (error p, pos p, length_p p)) (parse_text heap_ok ''{"a"'')
     = Some (JSON_ERROR_UNEXPECTED_CHAR, 5, 4)\<close>
  by code_simp


text \<open>
  C5. The claim: during one call of \<open>json_parser_parse\<close> the error field is written at most
  once, a latched code is never overwritten, and so the caller observes the first fault met
  in document order. The latch is there: after the assignment \<open>parser->error = JSON_ERROR_NONE\<close>
  at the entry, the call assigns the field at most once more, never \<open>JSON_ERROR_NONE\<close>, and
  returns the last value assigned; \<open>json_set_error\<close> leaves a code that is already there.
  But two failure paths return \<open>-1\<close> without calling \<open>json_set_error\<close>:
  \<open>json_parse_literal\<close>, and \<open>json_parse_value\<close> at the end of the input. On \<open>[tru\<close> the
  element fails, \<open>json_parse_array\<close> passes the \<open>-1\<close> on, nothing but the reset is ever
  assigned, and the caller observes \<open>JSON_ERROR_NONE\<close>: no fault at all, where the first fault
  is the truncated literal at offset 1.
\<close>

theorem first_fault_not_latched:
  "(\<exists>p' ws. json_parser_parse p = Some p'
        \<and> error_writes p' = error_writes p @ JSON_ERROR_NONE # ws \<and> length ws \<le> 1
        \<and> JSON_ERROR_NONE \<notin> set ws
        \<and> error p' = (case ws of [] \<Rightarrow> JSON_ERROR_NONE | e # _ \<Rightarrow> e))
   \<and> error (json_set_error q e) = (if error q = JSON_ERROR_NONE then e else error q)
   \<and> map_option (\<lambda>(rc, p). (rc, error p, error_writes p))
        (json_parse_value 15 (json_parser_init env ''[tru'' 4)) = Some (- 1, JSON_ERROR_NONE, [])
   \<and> map_option (\<lambda>p. (error p, error_writes p)) (parse_text env ''[tru'')
        = Some (JSON_ERROR_NONE, [JSON_ERROR_NONE])"
proof (intro conjI)
  define w where "w = error_writes p @ [JSON_ERROR_NONE]"
  define p1 where "p1 = json_skip_whitespace
      (p\<lparr>error := JSON_ERROR_NONE, error_writes := error_writes p @ [JSON_ERROR_NONE]\<rparr>)"
  have p1: "error p1 = JSON_ERROR_NONE" "error_writes p1 = w"
    by (simp_all add: p1_def w_def)
  have one: "\<exists>ws. error_writes (json_set_error q' e') = w @ ws \<and> length ws \<le> 1
      \<and> JSON_ERROR_NONE \<notin> set ws
      \<and> error (json_set_error q' e') = (case ws of [] \<Rightarrow> JSON_ERROR_NONE | e # _ \<Rightarrow> e)"
    if "error q' = JSON_ERROR_NONE" "error_writes q' = w" "e' \<noteq> JSON_ERROR_NONE" for q' e'
    using that by (intro exI [of _ "[e']"]) simp
  have "\<exists>p' ws. json_parser_parse p = Some p'
        \<and> error_writes p' = w @ ws \<and> length ws \<le> 1 \<and> JSON_ERROR_NONE \<notin> set ws
        \<and> error p' = (case ws of [] \<Rightarrow> JSON_ERROR_NONE | e # _ \<Rightarrow> e)"
  proof (cases "pos p1 \<ge> length_p p1")
    case True
    then have "json_parser_parse p = Some (json_set_error p1 JSON_ERROR_INVALID_TOKEN)"
      by (simp add: json_parser_parse_def Let_def p1_def)
    with one [OF p1, of JSON_ERROR_INVALID_TOKEN] show ?thesis by auto
  next
    case False
    from json_parse_value_terminates [of p1 "parse_fuel p1"] obtain rc p2 where
      v: "json_parse_value (parse_fuel p1) p1 = Some (rc, p2)" by auto
    from parse_ok_value [OF v] have l: "latched rc p1 p2" and rc: "rc = 0 \<or> rc = - 1"
      by (simp_all add: call_ok_def handler_ok_def)
    show ?thesis
    proof (cases "rc < 0")
      case True
      with False v have r: "json_parser_parse p = Some p2"
        by (simp add: json_parser_parse_def Let_def p1_def)
      from l p1 consider "error p2 = JSON_ERROR_NONE" "error_writes p2 = w"
        | "error_writes p2 = w @ [error p2]" "error p2 \<noteq> JSON_ERROR_NONE"
        by (auto simp: latched_def)
      then show ?thesis
      proof cases
        case 1
        with r show ?thesis by (intro exI [of _ p2] exI [of _ "[]"]) simp
      next
        case 2
        with r show ?thesis by (intro exI [of _ p2] exI [of _ "[error p2]"]) auto
      qed
    next
      case ok: False
      with rc have "rc = 0" by simp
      with l p1 have p2: "error p2 = JSON_ERROR_NONE" "error_writes p2 = w"
        by (simp_all add: latched_def)
      define p3 where "p3 = json_skip_whitespace p2"
      have p3: "error p3 = JSON_ERROR_NONE" "error_writes p3 = w"
        using p2 by (simp_all add: p3_def)
      show ?thesis
      proof (cases "pos p3 \<noteq> length_p p3")
        case True
        with False v ok have "json_parser_parse p = Some (json_set_error p3 JSON_ERROR_TRAILING_CHARS)"
          by (simp add: json_parser_parse_def Let_def p1_def p3_def del: pos_json_skip_whitespace)
        with one [OF p3, of JSON_ERROR_TRAILING_CHARS] show ?thesis by auto
      next
        case same: False
        with False v ok have "json_parser_parse p = Some p3"
          by (simp add: json_parser_parse_def Let_def p1_def p3_def del: pos_json_skip_whitespace)
        with p3 show ?thesis by (intro exI [of _ p3] exI [of _ "[]"]) simp
      qed
    qed
  qed
  then show "\<exists>p' ws. json_parser_parse p = Some p'
        \<and> error_writes p' = error_writes p @ JSON_ERROR_NONE # ws \<and> length ws \<le> 1
        \<and> JSON_ERROR_NONE \<notin> set ws
        \<and> error p' = (case ws of [] \<Rightarrow> JSON_ERROR_NONE | e # _ \<Rightarrow> e)"
    by (simp add: w_def)
  show "error (json_set_error q e) = (if error q = JSON_ERROR_NONE then e else error q)"
    by simp
  show "map_option (\<lambda>(rc, p). (rc, error p, error_writes p))
        (json_parse_value 15 (json_parser_init env ''[tru'' 4)) = Some (- 1, JSON_ERROR_NONE, [])"
    by code_simp
  show "map_option (\<lambda>p. (error p, error_writes p)) (parse_text env ''[tru'')
        = Some (JSON_ERROR_NONE, [JSON_ERROR_NONE])"
    by code_simp
qed

text \<open>
  C10. When every byte from the cursor to \<open>length\<close> is white space (in particular when the
  input is empty), \<open>json_parser_parse\<close> returns \<open>JSON_ERROR_INVALID_TOKEN\<close> and the token
  store is what it was: for a parser fresh from \<open>json_parser_init\<close>, empty.
\<close>

theorem whitespace_only_is_invalid_token:
  assumes "\<forall>i. pos p \<le> i \<and> i < length_p p \<longrightarrow> isspace (json_at p i)"
  shows "\<exists>p'. json_parser_parse p = Some p' \<and> error p' = JSON_ERROR_INVALID_TOKEN
            \<and> tokens p' = tokens p"
proof -
  let ?p0 = "p\<lparr>error := JSON_ERROR_NONE, error_writes := error_writes p @ [JSON_ERROR_NONE]\<rparr>"
  from assms have "\<forall>i. pos ?p0 \<le> i \<and> i < length_p ?p0 \<longrightarrow> isspace (json_at ?p0 i)"
    by simp
  from json_skip_whitespace_all_space [OF this]
  have "length_p (json_skip_whitespace ?p0) \<le> pos (json_skip_whitespace ?p0)"
    by (simp del: pos_json_skip_whitespace)
  then show ?thesis
    by (simp add: json_parser_parse_def Let_def del: pos_json_skip_whitespace)
qed

theorem whitespace_only_is_invalid_token_witness:
  "\<exists>p'. json_parser_parse (json_parser_init heap_ok [CHR '' '', CHR 0x0A, CHR 0x09] 3) = Some p'
         \<and> error p' = JSON_ERROR_INVALID_TOKEN \<and> tokens p' = []"
proof -
  have h: "\<forall>i. pos (json_parser_init heap_ok [CHR '' '', CHR 0x0A, CHR 0x09] 3) \<le> i
         \<and> i < length_p (json_parser_init heap_ok [CHR '' '', CHR 0x0A, CHR 0x09] 3)
         \<longrightarrow> isspace (json_at (json_parser_init heap_ok [CHR '' '', CHR 0x0A, CHR 0x09] 3) i)"
    by (simp add: json_parser_init_def json_at_def isspace_def byte_def less_Suc_eq
        numeral_3_eq_3)
  from whitespace_only_is_invalid_token [OF h] show ?thesis
    by (simp add: json_parser_init_def)
qed




text \<open>
  C8. A high surrogate followed by the \<open>\u\<close> escape of a low surrogate is combined into
  \<open>0x10000 + ((high - 0xD800) << 10) + (low - 0xDC00)\<close> (first part: whatever the two
  groups of four hexadecimal digits are, as \<open>hex4_loop\<close> reads them), and a low surrogate
  that comes first is refused (second part). With the string buffer allocated,
  the text \<open>"\uD800\uDC00"\<close> decodes to the four bytes \<open>F0 90 80 80\<close> of U+10000, and
  \<open>"\uD800"\<close> and \<open>"\uDC00"\<close> each fail with \<open>JSON_ERROR_INVALID_UNICODE\<close>.
\<close>

theorem surrogate_pairs:
  assumes "env 0 \<noteq> Alloc_Fails"
  shows
    "(pos p + 4 \<le> length_p p \<and> hex4_loop 4 p 0 = (0, p1, high)
        \<and> 0xD800 \<le> high \<and> high \<le> 0xDBFF
        \<and> pos p1 + 6 \<le> length_p p1
        \<and> json_at p1 (pos p1) = CHR 0x5C \<and> json_at p1 (pos p1 + 1) = CHR ''u''
        \<and> hex4_loop 4 (p1\<lparr>pos := pos p1 + 2\<rparr>) 0 = (0, p2, low)
        \<and> 0xDC00 \<le> low \<and> low \<le> 0xDFFF
      \<longrightarrow> unicode_escape_codepoint p
            = (0, p2, 0x10000 + push_bit 10 (high - 0xD800) + (low - 0xDC00)))
     \<and> (pos p + 4 \<le> length_p p \<and> hex4_loop 4 p 0 = (0, p1, low)
          \<and> 0xDC00 \<le> low \<and> low \<le> 0xDFFF
        \<longrightarrow> fst (unicode_escape_codepoint p) = - 1)
     \<and> map_option (\<lambda>p. (error p, tokens p))
           (parse_text env (CHR 0x22 # CHR 0x5C # ''uD800'' @ CHR 0x5C # ''uDC00'' @ [CHR 0x22]))
         = Some (JSON_ERROR_NONE,
                 [\<lparr>tok_type = JSON_TOKEN_STRING,
                   tok_value = Value_String [CHR 0xF0, CHR 0x90, CHR 0x80, CHR 0x80],
                   tok_start = 1, tok_end = 13\<rparr>])
     \<and> map_option error (parse_text env (CHR 0x22 # CHR 0x5C # ''uD800'' @ [CHR 0x22]))
         = Some JSON_ERROR_INVALID_UNICODE
     \<and> map_option error (parse_text env (CHR 0x22 # CHR 0x5C # ''uDC00'' @ [CHR 0x22]))
         = Some JSON_ERROR_INVALID_UNICODE"
proof (intro conjI impI)
  assume "pos p + 4 \<le> length_p p \<and> hex4_loop 4 p 0 = (0, p1, high)
        \<and> 0xD800 \<le> high \<and> high \<le> 0xDBFF
        \<and> pos p1 + 6 \<le> length_p p1
        \<and> json_at p1 (pos p1) = CHR 0x5C \<and> json_at p1 (pos p1 + 1) = CHR ''u''
        \<and> hex4_loop 4 (p1\<lparr>pos := pos p1 + 2\<rparr>) 0 = (0, p2, low)
        \<and> 0xDC00 \<le> low \<and> low \<le> 0xDFFF"
  then show "unicode_escape_codepoint p
            = (0, p2, 0x10000 + push_bit 10 (high - 0xD800) + (low - 0xDC00))"
    by (simp add: unicode_escape_codepoint_def not_less [symmetric])
next
  assume a: "pos p + 4 \<le> length_p p \<and> hex4_loop 4 p 0 = (0, p1, low)
          \<and> 0xDC00 \<le> low \<and> low \<le> 0xDFFF"
  then have "\<not> low \<le> 0xDBFF"
    by (auto simp: word_le_nat_alt)
  with a show "fst (unicode_escape_codepoint p) = - 1"
    by (simp add: unicode_escape_codepoint_def)
next
  let ?run = "\<lambda>js. case string_loop (Suc 0, 0)
             ((json_parser_init env (CHR 0x22 # js) (Suc (length js)))
                \<lparr>tokens := [\<lparr>tok_type = JSON_TOKEN_STRING, tok_value = Value_Zero,
                               tok_start = 1, tok_end = 0\<rparr>],
                 heap_calls := 1, pos := 1, error_writes := [JSON_ERROR_NONE]\<rparr>) [] of
        (rc, p) \<Rightarrow>
          if rc < 0 then Some p
          else (let p = json_skip_whitespace p
                in if pos p \<noteq> length_p p then Some (json_set_error p JSON_ERROR_TRAILING_CHARS)
                   else Some p)"
  have pq: "parse_text env (CHR 0x22 # js) = ?run js" for js
    using parse_quoted_text [of env js] assms by blast
  have "map_option (\<lambda>p. (error p, tokens p))
          (?run (CHR 0x5C # ''uD800'' @ CHR 0x5C # ''uDC00'' @ [CHR 0x22]))
        = Some (JSON_ERROR_NONE,
                 [\<lparr>tok_type = JSON_TOKEN_STRING,
                   tok_value = Value_String [CHR 0xF0, CHR 0x90, CHR 0x80, CHR 0x80],
                   tok_start = 1, tok_end = 13\<rparr>])"
    by code_simp
  then show "map_option (\<lambda>p. (error p, tokens p))
           (parse_text env (CHR 0x22 # CHR 0x5C # ''uD800'' @ CHR 0x5C # ''uDC00'' @ [CHR 0x22]))
         = Some (JSON_ERROR_NONE,
                 [\<lparr>tok_type = JSON_TOKEN_STRING,
                   tok_value = Value_String [CHR 0xF0, CHR 0x90, CHR 0x80, CHR 0x80],
                   tok_start = 1, tok_end = 13\<rparr>])"
    by (simp only: pq)
  have "map_option error (?run (CHR 0x5C # ''uD800'' @ [CHR 0x22]))
        = Some JSON_ERROR_INVALID_UNICODE"
    by code_simp
  then show "map_option error (parse_text env (CHR 0x22 # CHR 0x5C # ''uD800'' @ [CHR 0x22]))
         = Some JSON_ERROR_INVALID_UNICODE"
    by (simp only: pq)
  have "map_option error (?run (CHR 0x5C # ''uDC00'' @ [CHR 0x22]))
        = Some JSON_ERROR_INVALID_UNICODE"
    by code_simp
  then show "map_option error (parse_text env (CHR 0x22 # CHR 0x5C # ''uDC00'' @ [CHR 0x22]))
         = Some JSON_ERROR_INVALID_UNICODE"
    by (simp only: pq)
qed


theorem surrogate_pairs_witness:
  "unicode_escape_codepoint (json_parser_init heap_ok (''D83D'' @ CHR 0x5C # ''uDE00'') 10)
     = (0, (json_parser_init heap_ok (''D83D'' @ CHR 0x5C # ''uDE00'') 10)\<lparr>pos := 10\<rparr>, 0x1F600)
   \<and> map_option (\<lambda>p. (error p, tokens p))
         (parse_text heap_ok (CHR 0x22 # CHR 0x5C # ''uD800'' @ CHR 0x5C # ''uDC00'' @ [CHR 0x22]))
       = Some (JSON_ERROR_NONE,
               [\<lparr>tok_type = JSON_TOKEN_STRING,
                 tok_value = Value_String [CHR 0xF0, CHR 0x90, CHR 0x80, CHR 0x80],
                 tok_start = 1, tok_end = 13\<rparr>])"
proof -
  let ?P = "json_parser_init heap_ok (''D83D'' @ CHR 0x5C # ''uDE00'') 10"
  have env: "heap_ok 0 \<noteq> Alloc_Fails" by (simp add: heap_ok_def)
  have four: "(4 :: nat) = Suc (Suc (Suc (Suc 0)))" by simp
  have h1: "hex4_loop 4 ?P 0 = (0, ?P\<lparr>pos := 4\<rparr>, 0xD83D)"
    by (subst four) (simp add: json_parser_init_def json_at_def byte_def Let_def numeral_eq_Suc)
  have h2: "hex4_loop 4 (?P\<lparr>pos := 4\<rparr>\<lparr>pos := pos (?P\<lparr>pos := 4\<rparr>) + 2\<rparr>) 0
      = (0, ?P\<lparr>pos := 10\<rparr>, 0xDE00)"
    by (subst four) (simp add: json_parser_init_def json_at_def byte_def Let_def numeral_eq_Suc)
  have at: "json_at (?P\<lparr>pos := 4\<rparr>) (pos (?P\<lparr>pos := 4\<rparr>)) = CHR 0x5C"
    "json_at (?P\<lparr>pos := 4\<rparr>) (pos (?P\<lparr>pos := 4\<rparr>) + 1) = CHR ''u''"
    by code_simp+
  have le: "pos ?P + 4 \<le> length_p ?P" "pos (?P\<lparr>pos := 4\<rparr>) + 6 \<le> length_p (?P\<lparr>pos := 4\<rparr>)"
    by (simp_all add: json_parser_init_def)
  have r: "(0xD800 :: 32 word) \<le> 0xD83D" "(0xD83D :: 32 word) \<le> 0xDBFF"
    "(0xDC00 :: 32 word) \<le> 0xDE00" "(0xDE00 :: 32 word) \<le> 0xDFFF"
    by simp_all
  have v: "(0x10000 + push_bit 10 (0xD83D - 0xD800) + (0xDE00 - 0xDC00) :: 32 word) = 0x1F600"
    by simp
  from surrogate_pairs [of heap_ok ?P "?P\<lparr>pos := 4\<rparr>" "0xD83D" "?P\<lparr>pos := 10\<rparr>" "0xDE00"]
    env le h1 h2 at r
  have "unicode_escape_codepoint ?P
      = (0, ?P\<lparr>pos := 10\<rparr>, 0x10000 + push_bit 10 (0xD83D - 0xD800) + (0xDE00 - 0xDC00))"
    by blast
  moreover from surrogate_pairs [of heap_ok] env
  have "map_option (\<lambda>p. (error p, tokens p))
         (parse_text heap_ok (CHR 0x22 # CHR 0x5C # ''uD800'' @ CHR 0x5C # ''uDC00'' @ [CHR 0x22]))
       = Some (JSON_ERROR_NONE,
               [\<lparr>tok_type = JSON_TOKEN_STRING,
                 tok_value = Value_String [CHR 0xF0, CHR 0x90, CHR 0x80, CHR 0x80],
                 tok_start = 1, tok_end = 13\<rparr>])"
    by blast
  ultimately show ?thesis
    by (simp only: v)
qed



text \<open>
  C9. The claim: a container token is appended before its descendants with \<open>end = 0\<close> and
  \<open>start\<close> at its opening delimiter, and at the closing delimiter \<open>end\<close> is set to the
  offset after it. For \<open>{}\<close> and \<open>[]\<close> this is what happens: each gives one token, from
  \<open>0\<close> to \<open>2\<close>. But \<open>json_parse_object\<close> and \<open>json_parse_array\<close> keep the pointer
  \<open>&parser->tokens[parser->token_count - 1]\<close> across the calls of \<open>json_parse_value\<close>
  for the members, and \<open>json_add_token\<close> may \<open>realloc\<close> the array in between. When
  \<open>realloc\<close> moves the block, \<open>obj_token->end = parser->pos\<close> writes through the old
  pointer, and the token in the array that the parser now owns keeps \<open>end = 0\<close>. This
  happens in the array \<open>[[],[],...,[]]\<close> of \<open>k + 1\<close> empty arrays as soon as its
  \<open>k + 2\<close> tokens exceed \<open>JSON_DEFAULT_MAX_TOKENS\<close>: the parse succeeds and the outer
  array's token still has \<open>end = 0\<close>. When \<open>realloc\<close> never moves the block, the same
  input gives \<open>end = 3 * k + 4\<close>, the length of the input.
\<close>

theorem container_end_lost_after_realloc:
  "map_option (\<lambda>p. (error p, tokens p)) (parse_text env ''{}'')
     = Some (JSON_ERROR_NONE,
             [\<lparr>tok_type = JSON_TOKEN_OBJECT, tok_value = Value_Zero, tok_start = 0, tok_end = 2\<rparr>])
   \<and> map_option (\<lambda>p. (error p, tokens p)) (parse_text env ''[]'')
     = Some (JSON_ERROR_NONE,
             [\<lparr>tok_type = JSON_TOKEN_ARRAY, tok_value = Value_Zero, tok_start = 0, tok_end = 2\<rparr>])
   \<and> ((\<forall>i. env i \<noteq> Alloc_Fails) \<and> env 0 = Alloc_Moves \<and> JSON_DEFAULT_MAX_TOKENS \<le> k + 1
        \<longrightarrow> map_option (\<lambda>p. (error p, length (tokens p), tokens p ! 0))
              (parse_text env (empties k))
            = Some (JSON_ERROR_NONE, k + 2,
                    \<lparr>tok_type = JSON_TOKEN_ARRAY, tok_value = Value_Zero, tok_start = 0,
                     tok_end = 0\<rparr>))
   \<and> ((\<forall>i. env i = Alloc_In_Place)
        \<longrightarrow> map_option (\<lambda>p. (error p, length (tokens p), tokens p ! 0))
              (parse_text env (empties k))
            = Some (JSON_ERROR_NONE, k + 2,
                    \<lparr>tok_type = JSON_TOKEN_ARRAY, tok_value = Value_Zero, tok_start = 0,
                     tok_end = 3 * k + 4\<rparr>))"
proof (intro conjI impI)
  show "map_option (\<lambda>p. (error p, tokens p)) (parse_text env ''{}'')
     = Some (JSON_ERROR_NONE,
             [\<lparr>tok_type = JSON_TOKEN_OBJECT, tok_value = Value_Zero, tok_start = 0, tok_end = 2\<rparr>])"
    by code_simp
  show "map_option (\<lambda>p. (error p, tokens p)) (parse_text env ''[]'')
     = Some (JSON_ERROR_NONE,
             [\<lparr>tok_type = JSON_TOKEN_ARRAY, tok_value = Value_Zero, tok_start = 0, tok_end = 2\<rparr>])"
    by code_simp
next
  assume a: "(\<forall>i. env i \<noteq> Alloc_Fails) \<and> env 0 = Alloc_Moves \<and> JSON_DEFAULT_MAX_TOKENS \<le> k + 1"
  then have "\<forall>i. env i \<noteq> Alloc_Fails" by simp
  from parse_empties [OF this, of k] a
  show "map_option (\<lambda>p. (error p, length (tokens p), tokens p ! 0)) (parse_text env (empties k))
            = Some (JSON_ERROR_NONE, k + 2,
                    \<lparr>tok_type = JSON_TOKEN_ARRAY, tok_value = Value_Zero, tok_start = 0,
                     tok_end = 0\<rparr>)"
    by auto
next
  assume a: "\<forall>i. env i = Alloc_In_Place"
  then have nf: "\<forall>i. env i \<noteq> Alloc_Fails" and nm: "\<forall>i. env i \<noteq> Alloc_Moves"
    by simp_all
  from parse_empties [OF nf, of k] nm
  show "map_option (\<lambda>p. (error p, length (tokens p), tokens p ! 0)) (parse_text env (empties k))
            = Some (JSON_ERROR_NONE, k + 2,
                    \<lparr>tok_type = JSON_TOKEN_ARRAY, tok_value = Value_Zero, tok_start = 0,
                     tok_end = 3 * k + 4\<rparr>)"
    by auto
qed

theorem container_end_lost_after_realloc_witness:
  "map_option (\<lambda>p. (error p, length (tokens p), tokens p ! 0))
     (parse_text heap_moves (empties 127))
     = Some (JSON_ERROR_NONE, 129,
             \<lparr>tok_type = JSON_TOKEN_ARRAY, tok_value = Value_Zero, tok_start = 0, tok_end = 0\<rparr>)
   \<and> map_option (\<lambda>p. (error p, length (tokens p), tokens p ! 0))
     (parse_text heap_ok (empties 127))
     = Some (JSON_ERROR_NONE, 129,
             \<lparr>tok_type = JSON_TOKEN_ARRAY, tok_value = Value_Zero, tok_start = 0, tok_end = 385\<rparr>)"
proof -
  have m: "(\<forall>i. heap_moves i \<noteq> Alloc_Fails) \<and> heap_moves 0 = Alloc_Moves
      \<and> JSON_DEFAULT_MAX_TOKENS \<le> 127 + 1"
    by (simp add: heap_moves_def JSON_DEFAULT_MAX_TOKENS_def)
  have i: "\<forall>i. heap_ok i = Alloc_In_Place" by (simp add: heap_ok_def)
  note t1 = container_end_lost_after_realloc [where env = heap_moves and k = 127]
  note t2 = container_end_lost_after_realloc [where env = heap_ok and k = 127]
  from t1 m have a: "map_option (\<lambda>p. (error p, length (tokens p), tokens p ! 0))
     (parse_text heap_moves (empties 127))
     = Some (JSON_ERROR_NONE, 127 + 2,
             \<lparr>tok_type = JSON_TOKEN_ARRAY, tok_value = Value_Zero, tok_start = 0, tok_end = 0\<rparr>)"
    by blast
  from t2 i have b: "map_option (\<lambda>p. (error p, length (tokens p), tokens p ! 0))
     (parse_text heap_ok (empties 127))
     = Some (JSON_ERROR_NONE, 127 + 2,
             \<lparr>tok_type = JSON_TOKEN_ARRAY, tok_value = Value_Zero, tok_start = 0,
              tok_end = 3 * 127 + 4\<rparr>)"
    by blast
  from a b show ?thesis by simp
qed

end
